theory Spec2Isabelle
  imports
    Main
    "HOL-Library.Word"
    "HOL-Library.Sublist"
    "HOL-Library.Multiset"
    "HOL-Library.AList"
    "HOL-Library.Char_ord"
    "HOL-Library.List_Lexorder"
    "HOL-Library.Product_Lexorder"
begin

unbundle bit_operations_syntax

section \<open>dirsum: checksum manifests for directory trees\<close>

text \<open>
  A shallow embedding of \<^verbatim>\<open>dirsum.go\<close>. Go strings are byte sequences and are modelled
  as \<^typ>\<open>string\<close>; the order on strings is the bytewise lexicographic order that Go's
  \<^verbatim>\<open><\<close> has. The functions of Go's standard library that the program calls are
  modelled first (Unix flavour of \<^verbatim>\<open>path/filepath\<close>), the operating system and the
  parts of the runtime that Go leaves unspecified are collected in a record of oracles.
\<close>

subsection \<open>Package strings\<close>

abbreviation LF :: char where "LF \<equiv> CHR 0x0A"
abbreviation CR :: char where "CR \<equiv> CHR 0x0D"
abbreviation Separator :: char where "Separator \<equiv> CHR ''/''"

text \<open>\<^verbatim>\<open>strings.Index\<close>: the position of the first instance of \<open>sep\<close>, \<open>None\<close> for -1.\<close>

fun Index :: "string \<Rightarrow> string \<Rightarrow> nat option" where
  "Index [] sep = (if sep = [] then Some 0 else None)"
| "Index (c # s) sep =
     (if prefix sep (c # s) then Some 0 else map_option Suc (Index s sep))"

lemma Index_bound: "Index s sep = Some m \<Longrightarrow> m + length sep \<le> length s"
proof (induction s arbitrary: m)
  case Nil
  then show ?case by (simp split: if_splits)
next
  case (Cons c s)
  show ?case
  proof (cases "prefix sep (c # s)")
    case True
    with Cons.prems show ?thesis by (auto dest: prefix_length_le)
  next
    case False
    with Cons.prems obtain k where "Index s sep = Some k" "m = Suc k" by auto
    with Cons.IH show ?thesis by fastforce
  qed
qed

text \<open>
  \<^verbatim>\<open>strings.Split(s, sep)\<close> cuts at every instance of \<open>sep\<close>, leftmost first. With an
  empty separator Go explodes the string; the program never passes one.
\<close>

function Split :: "string \<Rightarrow> string \<Rightarrow> string list" where
  "Split s sep =
     (if sep = [] then map (\<lambda>c. [c]) s
      else case Index s sep of
        None \<Rightarrow> [s]
      | Some m \<Rightarrow> take m s # Split (drop (m + length sep) s) sep)"
  by pat_completeness auto
termination
proof (relation "measure (\<lambda>(s, sep). length s)")
  show "wf (measure (\<lambda>(s, sep). length s))" by simp
next
  fix s sep :: string and m
  assume "sep \<noteq> []" "Index s sep = Some m"
  from Index_bound [OF this(2)] this(1)
  show "((drop (m + length sep) s, sep), (s, sep)) \<in> measure (\<lambda>(s, sep). length s)"
    by (cases sep) auto
qed

declare Split.simps [simp del]

text \<open>
  \<^verbatim>\<open>strings.Replace(s, old, new, -1)\<close> replaces every non-overlapping instance of
  \<open>old\<close>. The program never passes an empty \<open>old\<close>; the model returns \<open>s\<close> there.
\<close>

function Replace :: "string \<Rightarrow> string \<Rightarrow> string \<Rightarrow> string" where
  "Replace s old new =
     (if old = [] then s
      else case Index s old of
        None \<Rightarrow> s
      | Some m \<Rightarrow> take m s @ new @ Replace (drop (m + length old) s) old new)"
  by pat_completeness auto
termination
proof (relation "measure (\<lambda>(s, old, new). length s)")
  show "wf (measure (\<lambda>(s, old, new). length s))" by simp
next
  fix s old new :: string and m
  assume "old \<noteq> []" "Index s old = Some m"
  from Index_bound [OF this(2)] this(1)
  show "((drop (m + length old) s, old, new), (s, old, new))
          \<in> measure (\<lambda>(s, old, new). length s)"
    by (cases old) auto
qed

declare Replace.simps [simp del]

text \<open>\<^verbatim>\<open>strings.Join\<close>, \<^verbatim>\<open>strings.HasPrefix\<close>, \<^verbatim>\<open>strings.HasSuffix\<close>.\<close>

fun Join_strings :: "string list \<Rightarrow> string \<Rightarrow> string" where
  "Join_strings [] sep = []"
| "Join_strings [x] sep = x"
| "Join_strings (x # y # ys) sep = x @ sep @ Join_strings (y # ys) sep"

definition HasPrefix :: "string \<Rightarrow> string \<Rightarrow> bool" where
  "HasPrefix s p = prefix p s"

definition HasSuffix :: "string \<Rightarrow> string \<Rightarrow> bool" where
  "HasSuffix s p = suffix p s"

subsection \<open>Package path/filepath, on Unix\<close>

definition IsAbs :: "string \<Rightarrow> bool" where
  "IsAbs path = HasPrefix path ''/''"

text \<open>
  \<^verbatim>\<open>filepath.Clean\<close> works through the elements of the path in order: empty elements and
  \<^verbatim>\<open>.\<close> are dropped, \<^verbatim>\<open>..\<close> removes the element before it when there is one to remove,
  is dropped at the root, and is kept at the front of a relative path. \<open>out\<close> holds the
  elements written so far, the last one first.
\<close>

fun cleanElems :: "bool \<Rightarrow> string list \<Rightarrow> string list \<Rightarrow> string list" where
  "cleanElems rooted out [] = rev out"
| "cleanElems rooted out (e # es) =
     (if e = [] \<or> e = ''.'' then cleanElems rooted out es
      else if e = ''..'' then
        (case out of
           [] \<Rightarrow> if rooted then cleanElems rooted [] es else cleanElems rooted [''..''] es
         | p # ps \<Rightarrow>
             if p = ''..'' then cleanElems rooted (''..'' # out) es
             else cleanElems rooted ps es)
      else cleanElems rooted (e # out) es)"

definition Clean :: "string \<Rightarrow> string" where
  "Clean path =
     (if path = [] then ''.''
      else
        let rooted = (hd path = Separator);
            out = Join_strings (cleanElems rooted [] (Split path ''/'')) ''/''
        in if rooted then Separator # out else if out = [] then ''.'' else out)"

text \<open>\<^verbatim>\<open>filepath.Join\<close>: the elements from the first non-empty one on, joined and cleaned.\<close>

fun Join :: "string list \<Rightarrow> string" where
  "Join [] = []"
| "Join (e # elem) = (if e \<noteq> [] then Clean (Join_strings (e # elem) ''/'') else Join elem)"

text \<open>\<^verbatim>\<open>filepath.Dir\<close>: everything up to the last separator, cleaned.\<close>

definition lastSep :: "string \<Rightarrow> nat" where
  "lastSep path = length (dropWhile (\<lambda>c. c \<noteq> Separator) (rev path))"

definition Dir :: "string \<Rightarrow> string" where
  "Dir path = Clean (take (lastSep path) path)"

text \<open>\<^verbatim>\<open>filepath.Base\<close>: the last element, trailing separators removed first.\<close>

definition Base :: "string \<Rightarrow> string" where
  "Base path =
     (if path = [] then ''.''
      else
        let p = rev (dropWhile (\<lambda>c. c = Separator) (rev path));
            b = drop (lastSep p) p
        in if b = [] then ''/'' else b)"

datatype error = Error string

text \<open>
  \<^verbatim>\<open>filepath.Rel\<close>. The loop moves both paths past their common leading elements; it
  returns the base element it stopped at, and what is left of the base and of the target.
\<close>

function relLoop :: "string \<Rightarrow> string \<Rightarrow> string \<times> string \<times> string" where
  "relLoop base targ =
     (if base \<noteq> [] \<and> targ \<noteq> [] then
        let b = takeWhile (\<lambda>c. c \<noteq> Separator) base;
            t = takeWhile (\<lambda>c. c \<noteq> Separator) targ
        in if t \<noteq> b then (b, base, targ)
           else relLoop (drop (Suc (length b)) base) (drop (Suc (length t)) targ)
      else ([], base, targ))"
  by pat_completeness auto
termination
  by (relation "measure (\<lambda>(base, targ). length base)") auto

declare relLoop.simps [simp del]

definition Rel :: "string \<Rightarrow> string \<Rightarrow> error + string" where
  "Rel basepath targpath =
     (let base = Clean basepath; targ = Clean targpath in
      if targ = base then Inr ''.''
      else
        let base = (if base = ''.'' then [] else base);
            baseSlashed = (base \<noteq> [] \<and> hd base = Separator);
            targSlashed = (targ \<noteq> [] \<and> hd targ = Separator)
        in if baseSlashed \<noteq> targSlashed then
             Inl (Error (''Rel: can't make '' @ targpath @ '' relative to '' @ basepath))
           else
             case relLoop base targ of (b, baseRest, targRest) \<Rightarrow>
               if b = ''..'' then
                 Inl (Error (''Rel: can't make '' @ targpath @ '' relative to '' @ basepath))
               else if baseRest \<noteq> [] then
                 Inr (''..'' @ concat (replicate (count_list baseRest Separator) ''/..'')
                      @ (if targRest \<noteq> [] then Separator # targRest else []))
               else Inr targRest)"

subsection \<open>The operating system and the runtime\<close>

record Checksum =
  Hash :: string
  Path :: string

text \<open>
  An open file. \<open>file_Stat\<close> is the result of \<^verbatim>\<open>file.Stat()\<close> (the size),
  \<open>file_md5\<close> the result of streaming the file through the MD5 hasher with
  \<^verbatim>\<open>io.Copy\<close> and taking \<^verbatim>\<open>hash.Sum(nil)\<close>: a read error, or the 16 bytes of the
  digest of the content, the first byte in the most significant position.
\<close>

record openFile =
  file_Stat :: "error + nat"
  file_md5 :: "error + 128 word"

text \<open>
  One call of the function handed to \<^verbatim>\<open>filepath.Walk\<close>: a path with
  \<^verbatim>\<open>fi.IsDir()\<close>, or a path with the error met there.
\<close>

datatype visit = Visit string bool | VisitErr string error

text \<open>
  The world the program runs in. The last three fields are what Go leaves open:
  \<^verbatim>\<open>strings.ToLower\<close> (Unicode tables), the algorithm of \<^verbatim>\<open>sort.Sort\<close> given the
  \<^verbatim>\<open>Less\<close> method (not stable), and the order in which \<^verbatim>\<open>range\<close> visits the keys of a map.
\<close>

record env =
  IsTerminal :: bool
  os_Getwd :: "error + string"
  os_Open :: "string \<Rightarrow> error + openFile"
  os_Stat :: "string \<Rightarrow> error + bool"
  ioutil_ReadFile :: "string \<Rightarrow> error + string"
  ioutil_WriteFile :: "string \<Rightarrow> string \<Rightarrow> error option"
  filepath_Walk :: "string \<Rightarrow> visit list"
  strings_ToLower :: "string \<Rightarrow> string"
  sort_Sort :: "(Checksum \<Rightarrow> Checksum \<Rightarrow> bool) \<Rightarrow> Checksum list \<Rightarrow> Checksum list"
  map_range :: "string list \<Rightarrow> string list"

text \<open>\<^verbatim>\<open>filepath.Abs\<close>.\<close>

definition Abs :: "env \<Rightarrow> string \<Rightarrow> error + string" where
  "Abs env path =
     (if IsAbs path then Inr (Clean path)
      else case os_Getwd env of
        Inl err \<Rightarrow> Inl err
      | Inr wd \<Rightarrow> Inr (Join [wd, path]))"

text \<open>
  \<^verbatim>\<open>filepath.Walk\<close> calls the function on every visit in turn and stops at the first
  error it returns (the program never returns \<^verbatim>\<open>SkipDir\<close>). The state \<open>s\<close> stands
  for the variables the closure captures and changes.
\<close>

fun Walk :: "visit list \<Rightarrow> (visit \<Rightarrow> 's \<Rightarrow> error option \<times> 's) \<Rightarrow> 's \<Rightarrow> error option \<times> 's" where
  "Walk [] fn s = (None, s)"
| "Walk (v # vs) fn s =
     (case fn v s of (Some err, s') \<Rightarrow> (Some err, s') | (None, s') \<Rightarrow> Walk vs fn s')"

text \<open>
  A Go map with string keys is an association list with distinct keys; \<^verbatim>\<open>range\<close>
  visits its entries in the order the runtime picks for its keys.
\<close>

type_synonym 'v gomap = "(string \<times> 'v) list"

definition rangeMap :: "env \<Rightarrow> 'v gomap \<Rightarrow> (string \<times> 'v) list" where
  "rangeMap env m =
     List.map_filter (\<lambda>k. map_option (Pair k) (map_of m k)) (map_range env (map fst m))"

subsection \<open>Types\<close>

text \<open>\<^verbatim>\<open>Checksums.Less\<close>, on the two elements instead of their indices.\<close>

definition Less :: "env \<Rightarrow> Checksum \<Rightarrow> Checksum \<Rightarrow> bool" where
  "Less env a b =
     (let aDir = strings_ToLower env (Dir (Path a));
          bDir = strings_ToLower env (Dir (Path b))
      in if aDir = bDir then strings_ToLower env (Path a) < strings_ToLower env (Path b)
         else aDir < bDir)"

subsection \<open>Functions\<close>

text \<open>The regular expression \<^verbatim>\<open>^[0-9a-fA-F]{32} \*.*$\<close>; \<^verbatim>\<open>.\<close> matches every byte but the line feed.\<close>

definition isHex :: "char \<Rightarrow> bool" where
  "isHex c =
     ((CHR ''0'' \<le> c \<and> c \<le> CHR ''9'') \<or> (CHR ''a'' \<le> c \<and> c \<le> CHR ''f'')
      \<or> (CHR ''A'' \<le> c \<and> c \<le> CHR ''F''))"

definition MatchString :: "string \<Rightarrow> bool" where
  "MatchString line =
     (let hash = take 32 line; rest = drop 32 line
      in length hash = 32 \<and> list_all isHex hash \<and> prefix '' *'' rest \<and> LF \<notin> set rest)"

text \<open>
  The body of the loop of \<^verbatim>\<open>readFile\<close> and \<^verbatim>\<open>readFileToMap\<close> for a line that matches.
  A line that matches splits into two pieces at least (lemma \<open>MatchString_Split_length\<close>),
  so both indices are in range.
\<close>

definition lineEntry :: "string \<Rightarrow> string \<Rightarrow> Checksum" where
  "lineEntry dir line =
     (let split = Split line '' *'';
          p = (if \<not> IsAbs (split ! 1) then Join [dir, split ! 1] else split ! 1)
      in \<lparr>Hash = split ! 0, Path = p\<rparr>)"

fun readLines :: "string \<Rightarrow> string list \<Rightarrow> Checksum list \<Rightarrow> Checksum list" where
  "readLines dir [] sums = sums"
| "readLines dir (line # lines) sums =
     (if length line \<le> 0 then readLines dir lines sums
      else if MatchString line then readLines dir lines (sums @ [lineEntry dir line])
      else readLines dir lines sums)"

definition readFile :: "env \<Rightarrow> string \<Rightarrow> error + Checksum list" where
  "readFile env path =
     (case ioutil_ReadFile env path of
        Inl err \<Rightarrow> Inl err
      | Inr data \<Rightarrow>
          Inr (readLines (Dir path) (Split (Replace data [CR, LF] [LF]) [LF]) []))"

fun readLinesToMap :: "string \<Rightarrow> string list \<Rightarrow> Checksum gomap \<Rightarrow> Checksum gomap" where
  "readLinesToMap dir [] checksumMap = checksumMap"
| "readLinesToMap dir (line # lines) checksumMap =
     (if length line \<le> 0 then readLinesToMap dir lines checksumMap
      else if MatchString line then
        readLinesToMap dir lines
          (AList.update (Path (lineEntry dir line)) (lineEntry dir line) checksumMap)
      else readLinesToMap dir lines checksumMap)"

definition readFileToMap :: "env \<Rightarrow> string \<Rightarrow> error + Checksum gomap" where
  "readFileToMap env path =
     (case ioutil_ReadFile env path of
        Inl err \<Rightarrow> Inl err
      | Inr data \<Rightarrow>
          Inr (readLinesToMap (Dir path) (Split (Replace data [CR, LF] [LF]) [LF]) []))"

text \<open>
  \<^verbatim>\<open>writeFile\<close>. \<open>relPath\<close> is the path written for an entry: relative to the
  directory of the output file, or absolute when it cannot be made relative. On success
  the result is the content written to \<open>path\<close>.
\<close>

definition relPath :: "env \<Rightarrow> string \<Rightarrow> string \<Rightarrow> error + string" where
  "relPath env dir p = (case Rel dir p of Inr r \<Rightarrow> Inr r | Inl _ \<Rightarrow> Abs env p)"

fun writeLoop :: "env \<Rightarrow> string \<Rightarrow> Checksum list \<Rightarrow> string \<Rightarrow> error + string" where
  "writeLoop env dir [] output = Inr output"
| "writeLoop env dir (csum # sums) output =
     (case relPath env dir (Path csum) of
        Inl err \<Rightarrow> Inl err
      | Inr r \<Rightarrow> writeLoop env dir sums (output @ Hash csum @ '' *'' @ r @ [LF]))"

definition writeFile :: "env \<Rightarrow> Checksum list \<Rightarrow> string \<Rightarrow> error + string" where
  "writeFile env sums path =
     (let dir = Dir path in
      case writeLoop env dir (sort_Sort env (Less env) sums) [] of
        Inl err \<Rightarrow> Inl err
      | Inr output \<Rightarrow>
          (case ioutil_WriteFile env path output of
             Some err \<Rightarrow> Inl err
           | None \<Rightarrow> Inr output))"

text \<open>\<^verbatim>\<open>fmt.Sprintf("%x", ...)\<close> of a byte slice: two lowercase hexadecimal digits a byte.\<close>

definition hexDigit :: "nat \<Rightarrow> char" where
  "hexDigit n = ''0123456789abcdef'' ! (n mod 16)"

definition digestBytes :: "128 word \<Rightarrow> 8 word list" where
  "digestBytes d = map (\<lambda>i. ucast (drop_bit (8 * (15 - i)) d)) [0..<16]"

definition Sprintf_x :: "8 word list \<Rightarrow> string" where
  "Sprintf_x bs = concat (map (\<lambda>b. [hexDigit (unat (drop_bit 4 b)), hexDigit (unat (b AND 15))]) bs)"

definition generateMd5 :: "env \<Rightarrow> string \<Rightarrow> error + string" where
  "generateMd5 env path =
     (case os_Open env path of
        Inl err \<Rightarrow> Inl err
      | Inr f \<Rightarrow>
          if IsTerminal env then
            (case file_Stat f of
               Inl err \<Rightarrow> Inl err
             | Inr fileSize \<Rightarrow>
                 (case file_md5 f of
                    Inl err \<Rightarrow> Inl err
                  | Inr d \<Rightarrow> Inr (Sprintf_x (digestBytes d))))
          else
            (case file_md5 f of
               Inl err \<Rightarrow> Inl err
             | Inr d \<Rightarrow> Inr (Sprintf_x (digestBytes d))))"

text \<open>\<^verbatim>\<open>Checksum.Verify\<close>: the pair \<^verbatim>\<open>(bool, error)\<close>, \<open>None\<close> for \<^verbatim>\<open>nil\<close>.\<close>

definition Verify :: "env \<Rightarrow> Checksum \<Rightarrow> bool \<times> error option" where
  "Verify env c =
     (case generateMd5 env (Path c) of
        Inl err \<Rightarrow> (False, Some err)
      | Inr newHash \<Rightarrow> if Hash c = newHash then (True, None) else (False, None))"

text \<open>
  What the program prints, one constructor for each format string of the calls of
  \<^verbatim>\<open>printColored\<close> and \<^verbatim>\<open>fmt.Print\<close> in the commands, with the value printed. Colours,
  the shortening of lines to the terminal width and the transient progress display of
  \<^verbatim>\<open>generateMd5\<close> are left out.
\<close>

datatype msg =
    Header string string
  | IncorrectUsage
  | FatalError error
  | ErrorLine error
  | OK_line string
  | ER_line string
  | EntryError string
  | EntryInvalid string
  | Wrote string
  | Updated string
  | Blank

fun verifyLoop :: "env \<Rightarrow> string \<Rightarrow> Checksum list \<Rightarrow> bool \<times> msg list \<Rightarrow> bool \<times> msg list" where
  "verifyLoop env path [] st = st"
| "verifyLoop env path (c # sums) (hasErrors, out) =
     (case Verify env c of (isValid, err) \<Rightarrow>
        if \<not> isValid then
          let st = (if \<not> hasErrors then (True, out @ [ER_line path]) else (hasErrors, out)) in
          if err \<noteq> None then verifyLoop env path sums (fst st, snd st @ [EntryError (Path c)])
          else verifyLoop env path sums (fst st, snd st @ [EntryInvalid (Path c)])
        else verifyLoop env path sums (hasErrors, out))"

definition verifyFile :: "env \<Rightarrow> string \<Rightarrow> msg list" where
  "verifyFile env path =
     (case readFile env path of
        Inl err \<Rightarrow> [ErrorLine err]
      | Inr sums \<Rightarrow>
          (case verifyLoop env path sums (False, []) of (hasErrors, out) \<Rightarrow>
             if \<not> hasErrors then out @ [OK_line path] else out))"

subsection \<open>Commands\<close>

text \<open>
  The \<^verbatim>\<open>cli.Context\<close> of a command: its positional arguments and its boolean flags.
  A command ends in an outcome: what it printed, the exit status of the process (1 after
  \<^verbatim>\<open>os.Exit(1)\<close>, 0 when the action returns \<^verbatim>\<open>nil\<close> and \<^verbatim>\<open>main\<close> returns after
  \<^verbatim>\<open>app.Run\<close>), and the file it wrote with its content.
\<close>

record ctx =
  ctx_Args :: "string list"
  ctx_Bool :: "string \<Rightarrow> bool"

record outcome =
  Printed :: "msg list"
  ExitCode :: nat
  Written :: "(string \<times> string) option"

text \<open>The test of \<^verbatim>\<open>newCommand\<close> and \<^verbatim>\<open>updateCommand\<close> that keeps the manifest itself out of the scan.\<close>

definition isOutputFile :: "env \<Rightarrow> string \<Rightarrow> string \<Rightarrow> string \<Rightarrow> error + bool" where
  "isOutputFile env path output outputBase =
     (if HasSuffix path outputBase then
        (case Abs env path of
           Inl err \<Rightarrow> Inl err
         | Inr pathAbs \<Rightarrow>
             (case Abs env output of
                Inl err \<Rightarrow> Inl err
              | Inr outputAbs \<Rightarrow> Inr (pathAbs = outputAbs)))
      else Inr False)"

definition newWalkFn ::
  "env \<Rightarrow> string \<Rightarrow> string \<Rightarrow> visit \<Rightarrow> Checksum list \<Rightarrow> error option \<times> Checksum list" where
  "newWalkFn env output outputBase v sums =
     (case v of
        VisitErr path err \<Rightarrow> (Some err, sums)
      | Visit path isDir \<Rightarrow>
          if isDir then (None, sums)
          else
            (case isOutputFile env path output outputBase of
               Inl err \<Rightarrow> (Some err, sums)
             | Inr True \<Rightarrow> (None, sums)
             | Inr False \<Rightarrow>
                 (case generateMd5 env path of
                    Inl err \<Rightarrow> (Some err, sums)
                  | Inr hash \<Rightarrow> (None, sums @ [\<lparr>Hash = hash, Path = path\<rparr>]))))"

definition newCommand :: "env \<Rightarrow> ctx \<Rightarrow> outcome" where
  "newCommand env ctx =
     (if length (ctx_Args ctx) < 2 then
        \<lparr>Printed = [IncorrectUsage], ExitCode = 0, Written = None\<rparr>
      else
        let source = ctx_Args ctx ! 0; output = ctx_Args ctx ! 1;
            outputBase = Base output;
            out = [Header ''Hashing'' source]
        in case Walk (filepath_Walk env source) (newWalkFn env output outputBase) [] of
             (Some err, sums) \<Rightarrow>
               \<lparr>Printed = out @ [FatalError err], ExitCode = 1, Written = None\<rparr>
           | (None, sums) \<Rightarrow>
               (case writeFile env sums output of
                  Inl err \<Rightarrow> \<lparr>Printed = out @ [FatalError err], ExitCode = 1, Written = None\<rparr>
                | Inr bytes \<Rightarrow>
                    \<lparr>Printed = out @ [Wrote output], ExitCode = 0,
                     Written = Some (output, bytes)\<rparr>))"

definition updateWalkFn ::
  "env \<Rightarrow> string \<Rightarrow> string \<Rightarrow> visit \<Rightarrow> bool gomap \<Rightarrow> error option \<times> bool gomap" where
  "updateWalkFn env target targetBase v sourceMap =
     (case v of
        VisitErr path err \<Rightarrow> (Some err, sourceMap)
      | Visit path isDir \<Rightarrow>
          if isDir then (None, sourceMap)
          else
            (case isOutputFile env path target targetBase of
               Inl err \<Rightarrow> (Some err, sourceMap)
             | Inr True \<Rightarrow> (None, sourceMap)
             | Inr False \<Rightarrow> (None, AList.update path True sourceMap)))"

text \<open>The loop that removes old checksums, over the keys of the target map in the order of \<^verbatim>\<open>range\<close>.\<close>

fun deleteLoop :: "bool gomap \<Rightarrow> string list \<Rightarrow> Checksum gomap \<Rightarrow> Checksum gomap" where
  "deleteLoop sourceMap [] targetMap = targetMap"
| "deleteLoop sourceMap (key # keys) targetMap =
     (if map_of sourceMap key = None then deleteLoop sourceMap keys (AList.delete key targetMap)
      else deleteLoop sourceMap keys targetMap)"

text \<open>
  The loop that inserts new checksums, over the keys of the source map. Next to the target
  map it keeps a log of the paths it has handed to \<^verbatim>\<open>generateMd5\<close>.
\<close>

fun insertLoop ::
  "env \<Rightarrow> string list \<Rightarrow> Checksum gomap \<times> string list \<Rightarrow> error + Checksum gomap \<times> string list" where
  "insertLoop env [] st = Inr st"
| "insertLoop env (key # keys) (targetMap, hashed) =
     (if map_of targetMap key = None then
        (case generateMd5 env key of
           Inl err \<Rightarrow> Inl err
         | Inr hash \<Rightarrow>
             insertLoop env keys
               (AList.update key \<lparr>Hash = hash, Path = key\<rparr> targetMap, hashed @ [key]))
      else insertLoop env keys (targetMap, hashed))"

definition reconcile ::
  "env \<Rightarrow> bool \<Rightarrow> bool gomap \<Rightarrow> Checksum gomap \<Rightarrow> error + Checksum gomap \<times> string list" where
  "reconcile env deleteFlag sourceMap targetMap =
     (let targetMap =
            (if deleteFlag then
               deleteLoop sourceMap (map fst (rangeMap env targetMap)) targetMap
             else targetMap)
      in insertLoop env (map fst (rangeMap env sourceMap)) (targetMap, []))"

definition updateCommand :: "env \<Rightarrow> ctx \<Rightarrow> outcome" where
  "updateCommand env ctx =
     (if length (ctx_Args ctx) < 2 then
        \<lparr>Printed = [IncorrectUsage], ExitCode = 0, Written = None\<rparr>
      else
        let source = ctx_Args ctx ! 0; target = ctx_Args ctx ! 1;
            targetBase = Base target;
            out = [Header ''Updating'' target]
        in case Walk (filepath_Walk env source) (updateWalkFn env target targetBase) [] of
             (Some err, sourceMap) \<Rightarrow>
               \<lparr>Printed = out @ [FatalError err], ExitCode = 1, Written = None\<rparr>
           | (None, sourceMap) \<Rightarrow>
               (case readFileToMap env target of
                  Inl err \<Rightarrow> \<lparr>Printed = out @ [FatalError err], ExitCode = 1, Written = None\<rparr>
                | Inr targetMap \<Rightarrow>
                    (case reconcile env (ctx_Bool ctx ''delete'') sourceMap targetMap of
                       Inl err \<Rightarrow>
                         \<lparr>Printed = out @ [FatalError err], ExitCode = 1, Written = None\<rparr>
                     | Inr (targetMap, hashed) \<Rightarrow>
                         let targetSlice = map snd (rangeMap env targetMap) in
                         (case writeFile env targetSlice target of
                            Inl err \<Rightarrow>
                              \<lparr>Printed = out @ [FatalError err], ExitCode = 1, Written = None\<rparr>
                          | Inr bytes \<Rightarrow>
                              \<lparr>Printed = out @ [Updated target], ExitCode = 0,
                               Written = Some (target, bytes)\<rparr>))))"

definition verifyWalkFn :: "env \<Rightarrow> visit \<Rightarrow> msg list \<Rightarrow> error option \<times> msg list" where
  "verifyWalkFn env v out =
     (case v of
        VisitErr path err \<Rightarrow> (None, out @ [ErrorLine err])
      | Visit path isDir \<Rightarrow>
          if HasSuffix path ''.md5'' \<and> \<not> isDir then (None, out @ verifyFile env path)
          else (None, out))"

definition verifyCommand :: "env \<Rightarrow> ctx \<Rightarrow> outcome" where
  "verifyCommand env ctx =
     (if length (ctx_Args ctx) < 1 then
        \<lparr>Printed = [IncorrectUsage], ExitCode = 0, Written = None\<rparr>
      else
        let path = ctx_Args ctx ! 0;
            out = [Header ''Veryfing'' path]
        in case os_Stat env path of
             Inl err \<Rightarrow> \<lparr>Printed = out @ [FatalError err], ExitCode = 1, Written = None\<rparr>
           | Inr isDir \<Rightarrow>
               let out =
                     (if isDir then snd (Walk (filepath_Walk env path) (verifyWalkFn env) out)
                      else out @ verifyFile env path)
               in \<lparr>Printed = out @ [Blank], ExitCode = 0, Written = None\<rparr>)"

subsection \<open>A concrete world\<close>

text \<open>
  \<^verbatim>\<open>strings.ToLower\<close> as it is on ASCII strings, and the insertion sort that
  \<^verbatim>\<open>sort.Sort\<close> runs on a short slice: every element in turn is swapped towards the
  front while it is less than the element before it. \<open>insertBack\<close> works on the
  sorted part with its last element first.
\<close>

definition asciiLower :: "string \<Rightarrow> string" where
  "asciiLower s =
     map (\<lambda>c. if CHR ''A'' \<le> c \<and> c \<le> CHR ''Z'' then char_of (of_char c + (32::nat)) else c) s"

fun insertBack :: "('a \<Rightarrow> 'a \<Rightarrow> bool) \<Rightarrow> 'a \<Rightarrow> 'a list \<Rightarrow> 'a list" where
  "insertBack lt x [] = [x]"
| "insertBack lt x (y # ys) = (if lt x y then y # insertBack lt x ys else x # y # ys)"

definition insertionSort :: "('a \<Rightarrow> 'a \<Rightarrow> bool) \<Rightarrow> 'a list \<Rightarrow> 'a list" where
  "insertionSort lt xs = rev (foldl (\<lambda>sorted_part x. insertBack lt x sorted_part) [] xs)"

text \<open>
  A world with the regular files \<open>files\<close>, each with the MD5 digest of its content, the
  text files \<open>texts\<close> and the directories \<open>walks\<close>, each with the visits of a walk
  through it. The working directory is \<^verbatim>\<open>/d\<close> and standard output is not a terminal.
\<close>

definition noSuchFile :: "string \<Rightarrow> error" where
  "noSuchFile p = Error (p @ '': no such file or directory'')"

definition unixWorld ::
  "(string \<times> 128 word) list \<Rightarrow> (string \<times> string) list \<Rightarrow> (string \<times> visit list) list \<Rightarrow> env" where
  "unixWorld files texts walks =
     \<lparr>IsTerminal = False,
      os_Getwd = Inr ''/d'',
      os_Open = (\<lambda>p. case map_of files p of
                        None \<Rightarrow> Inl (noSuchFile p)
                      | Some d \<Rightarrow> Inr \<lparr>file_Stat = Inr 1, file_md5 = Inr d\<rparr>),
      os_Stat = (\<lambda>p. if map_of walks p \<noteq> None then Inr True
                      else if map_of files p \<noteq> None then Inr False
                      else if map_of texts p \<noteq> None then Inr False
                      else Inl (noSuchFile p)),
      ioutil_ReadFile = (\<lambda>p. case map_of texts p of
                                None \<Rightarrow> Inl (noSuchFile p)
                              | Some t \<Rightarrow> Inr t),
      ioutil_WriteFile = (\<lambda>p data. None),
      filepath_Walk = (\<lambda>p. case map_of walks p of
                              None \<Rightarrow> [VisitErr p (noSuchFile p)]
                            | Some vs \<Rightarrow> vs),
      strings_ToLower = asciiLower,
      sort_Sort = insertionSort,
      map_range = (\<lambda>keys. keys)\<rparr>"

subsection \<open>The classification of an entry, as the specification words it\<close>

text \<open>
  An entry is unreadable when its file cannot be opened or read, mismatched when the file is
  read and its fresh hash differs from the recorded one, and fine otherwise. A manifest
  that can be read is reported as fine when every entry is, and otherwise with one line for
  every entry that is not; in a directory every \<^verbatim>\<open>.md5\<close> file is reported on.
\<close>

datatype status = OK | Mismatched | Unreadable

definition ioFailure :: "env \<Rightarrow> string \<Rightarrow> bool" where
  "ioFailure env p =
     (case os_Open env p of
        Inl err \<Rightarrow> True
      | Inr f \<Rightarrow> (IsTerminal env \<and> isl (file_Stat f)) \<or> isl (file_md5 f))"

definition freshHash :: "env \<Rightarrow> string \<Rightarrow> string" where
  "freshHash env p =
     (case os_Open env p of
        Inl err \<Rightarrow> []
      | Inr f \<Rightarrow> (case file_md5 f of Inl err \<Rightarrow> [] | Inr d \<Rightarrow> Sprintf_x (digestBytes d)))"

definition classify :: "env \<Rightarrow> Checksum \<Rightarrow> status" where
  "classify env c =
     (if ioFailure env (Path c) then Unreadable
      else if freshHash env (Path c) \<noteq> Hash c then Mismatched
      else OK)"

definition entryReport :: "env \<Rightarrow> Checksum \<Rightarrow> msg list" where
  "entryReport env c =
     (case classify env c of
        OK \<Rightarrow> []
      | Mismatched \<Rightarrow> [EntryInvalid (Path c)]
      | Unreadable \<Rightarrow> [EntryError (Path c)])"

definition manifestReport :: "env \<Rightarrow> string \<Rightarrow> msg list" where
  "manifestReport env path =
     (case readFile env path of
        Inl err \<Rightarrow> [ErrorLine err]
      | Inr sums \<Rightarrow>
          if list_all (\<lambda>c. classify env c = OK) sums then [OK_line path]
          else ER_line path # concat (map (entryReport env) sums))"

definition visitReport :: "env \<Rightarrow> visit \<Rightarrow> msg list" where
  "visitReport env v =
     (case v of
        VisitErr path err \<Rightarrow> [ErrorLine err]
      | Visit path isDir \<Rightarrow>
          if HasSuffix path ''.md5'' \<and> \<not> isDir then manifestReport env path else [])"

subsection \<open>Example worlds\<close>

text \<open>
  \<^verbatim>\<open>/d/m.md5\<close> records \<^verbatim>\<open>a.txt\<close> with the digest of the content \<^verbatim>\<open>x\<close> (the file now
  holds \<^verbatim>\<open>y\<close>), \<^verbatim>\<open>b.txt\<close> with its digest, and \<^verbatim>\<open>gone.txt\<close>, which does not exist;
  \<^verbatim>\<open>/d/sub/n.md5\<close> records \<^verbatim>\<open>c.txt\<close> with its digest.
\<close>

definition verifyWorld :: env where
  "verifyWorld =
     unixWorld
       [(''/d/a.txt'', 0x415290769594460e2e485922904f345d),
        (''/d/b.txt'', 0x415290769594460e2e485922904f345d),
        (''/d/sub/c.txt'', 0xfbade9e36a3f36d3d676c1b808451dd7)]
       [(''/d/m.md5'',
           ''9dd4e461268c8034f5c8564e155c67a6 *a.txt'' @ [LF]
           @ ''415290769594460e2e485922904f345d *b.txt'' @ [LF]
           @ ''d41d8cd98f00b204e9800998ecf8427e *gone.txt'' @ [LF]),
        (''/d/sub/n.md5'', ''fbade9e36a3f36d3d676c1b808451dd7 *c.txt'' @ [LF])]
       [(''/d'',
           [Visit ''/d'' True, Visit ''/d/a.txt'' False, Visit ''/d/b.txt'' False,
            Visit ''/d/m.md5'' False, Visit ''/d/sub'' True, Visit ''/d/sub/c.txt'' False,
            Visit ''/d/sub/n.md5'' False])]"

subsection \<open>Parsing, as the specification words it\<close>

text \<open>
  Line endings are normalised, the text is cut into lines, and every line that matches the
  pattern gives an entry: its first 32 characters are the hash, and the path recorded
  after the \<^verbatim>\<open>*\<close> is resolved against the directory of the manifest unless it is
  absolute. \<open>firstPiece\<close> is what the code keeps of the text after the \<^verbatim>\<open>*\<close>: all of it
  unless it holds another \<^verbatim>\<open> *\<close>. Read into a map, the entries are keyed by their
  path, and the last entry for a path is the one kept.
\<close>

definition resolve :: "string \<Rightarrow> string \<Rightarrow> string" where
  "resolve dir p = (if IsAbs p then p else Join [dir, p])"

definition firstPiece :: "string \<Rightarrow> string" where
  "firstPiece r = (case Index r '' *'' of None \<Rightarrow> r | Some m \<Rightarrow> take m r)"

definition parseSpec :: "string \<Rightarrow> string \<Rightarrow> Checksum list" where
  "parseSpec dir data =
     map (\<lambda>line. \<lparr>Hash = take 32 line, Path = resolve dir (firstPiece (drop 34 line))\<rparr>)
       (filter MatchString (Split (Replace data [CR, LF] [LF]) [LF]))"

definition lastFor :: "string \<Rightarrow> Checksum list \<Rightarrow> Checksum option" where
  "lastFor k sums =
     (let cs = filter (\<lambda>c. Path c = k) sums in if cs = [] then None else Some (last cs))"

text \<open>A map filled entry by entry keeps, for every path, the last entry with that path.\<close>

definition keyedByPath :: "Checksum gomap \<Rightarrow> bool" where
  "keyedByPath m = (distinct (map fst m) \<and> list_all (\<lambda>(k, c). k = Path c) m)"

text \<open>Line endings: a line loses one carriage return at its end.\<close>

definition stripCR :: "string \<Rightarrow> string" where
  "stripCR l = (if l \<noteq> [] \<and> last l = CR then butlast l else l)"

text \<open>
  A manifest at the relative path \<^verbatim>\<open>sub/m.md5\<close> with a comment, CRLF line endings, a
  blank line, an absolute path, a malformed line and two entries for the same file.
\<close>

definition parseWorld :: env where
  "parseWorld =
     unixWorld []
       [(''sub/m.md5'',
           ''# checksums'' @ [CR, LF]
           @ ''9dd4e461268c8034f5c8564e155c67a6 *a.txt'' @ [CR, LF]
           @ [LF]
           @ ''415290769594460E2E485922904F345D */abs/b.txt'' @ [LF]
           @ ''9dd4e461268c8034f5c8564e155c67a6  a.txt'' @ [LF]
           @ ''d41d8cd98f00b204e9800998ecf8427e *x/../a.txt'' @ [LF])]
       []"

subsection \<open>What the runtime guarantees\<close>

text \<open>
  \<^verbatim>\<open>range\<close> visits every key of a map once, in some order; \<^verbatim>\<open>sort.Sort\<close> permutes the
  slice so that no element is \<^verbatim>\<open>Less\<close> than one before it.
\<close>

definition range_ok :: "env \<Rightarrow> bool" where
  "range_ok env = (\<forall>keys. mset (map_range env keys) = mset keys)"

definition sort_ok :: "env \<Rightarrow> bool" where
  "sort_ok env =
     (\<forall>sums. mset (sort_Sort env (Less env) sums) = mset sums
        \<and> sorted_wrt (\<lambda>a b. \<not> Less env b a) (sort_Sort env (Less env) sums))"

text \<open>
  The key that \<^verbatim>\<open>Less\<close> compares: the lowercased directory, then the lowercased path.
\<close>

definition sortKey :: "env \<Rightarrow> Checksum \<Rightarrow> string \<times> string" where
  "sortKey env c = (strings_ToLower env (Dir (Path c)), strings_ToLower env (Path c))"

subsection \<open>The update, as the specification words it\<close>

text \<open>
  With the delete flag the entries whose path is not a source path are removed from the
  target set; then every source path that is not a key of what is kept gets an entry with
  its hash. \<open>hashable\<close> says that hashing a path succeeds.
\<close>

definition hashable :: "env \<Rightarrow> string \<Rightarrow> bool" where
  "hashable env p = (case generateMd5 env p of Inl err \<Rightarrow> False | Inr hash \<Rightarrow> True)"

definition keptSpec :: "bool \<Rightarrow> string set \<Rightarrow> (string \<rightharpoonup> Checksum) \<Rightarrow> (string \<rightharpoonup> Checksum)" where
  "keptSpec deleteMissing sourcePaths targetSet =
     (if deleteMissing then targetSet |` sourcePaths else targetSet)"

definition updateSpec ::
  "env \<Rightarrow> bool \<Rightarrow> string set \<Rightarrow> (string \<rightharpoonup> Checksum) \<Rightarrow> (string \<rightharpoonup> Checksum)" where
  "updateSpec env deleteMissing sourcePaths targetSet =
     (\<lambda>p. if p \<in> sourcePaths \<and> keptSpec deleteMissing sourcePaths targetSet p = None then
            (case generateMd5 env p of
               Inl err \<Rightarrow> None
             | Inr hash \<Rightarrow> Some \<lparr>Hash = hash, Path = p\<rparr>)
          else keptSpec deleteMissing sourcePaths targetSet p)"

text \<open>
  The line of an entry, without its line feed; the path written for an entry and the text
  written for a list of entries, in their order; the end of the update command once the
  entries to write are known.
\<close>

definition entryLine :: "Checksum \<Rightarrow> string \<Rightarrow> string" where
  "entryLine c r = Hash c @ '' *'' @ r"

definition writtenPath :: "env \<Rightarrow> string \<Rightarrow> Checksum \<Rightarrow> string" where
  "writtenPath env dir c = (case relPath env dir (Path c) of Inl err \<Rightarrow> [] | Inr r \<Rightarrow> r)"

definition serialize :: "env \<Rightarrow> string \<Rightarrow> Checksum list \<Rightarrow> string" where
  "serialize env dir sums = concat (map (\<lambda>c. entryLine c (writtenPath env dir c) @ [LF]) sums)"

definition updateFinish :: "env \<Rightarrow> string \<Rightarrow> Checksum list \<Rightarrow> outcome" where
  "updateFinish env target targetSlice =
     (case writeFile env targetSlice target of
        Inl err \<Rightarrow>
          \<lparr>Printed = [Header ''Updating'' target, FatalError err], ExitCode = 1, Written = None\<rparr>
      | Inr bytes \<Rightarrow>
          \<lparr>Printed = [Header ''Updating'' target, Updated target], ExitCode = 0,
           Written = Some (target, bytes)\<rparr>)"

text \<open>
  A world for the update: \<^verbatim>\<open>/d/m.md5\<close> records \<^verbatim>\<open>a.txt\<close> with the digest of the
  content \<^verbatim>\<open>x\<close> and \<^verbatim>\<open>old.txt\<close>; the directory now holds \<^verbatim>\<open>a.txt\<close> with the content
  \<^verbatim>\<open>y\<close>, the manifest and \<^verbatim>\<open>new.txt\<close>.
\<close>

definition updateWorld :: env where
  "updateWorld =
     unixWorld
       [(''/d/a.txt'', 0x415290769594460e2e485922904f345d),
        (''/d/new.txt'', 0xfbade9e36a3f36d3d676c1b808451dd7)]
       [(''/d/m.md5'',
           ''9dd4e461268c8034f5c8564e155c67a6 *a.txt'' @ [LF]
           @ ''d41d8cd98f00b204e9800998ecf8427e *old.txt'' @ [LF])]
       [(''/d'',
           [Visit ''/d'' True, Visit ''/d/a.txt'' False, Visit ''/d/m.md5'' False,
            Visit ''/d/new.txt'' False])]"

definition updateArgs :: "bool \<Rightarrow> ctx" where
  "updateArgs deleteFlag =
     \<lparr>ctx_Args = [''/d'', ''/d/m.md5''], ctx_Bool = (\<lambda>flag. flag = ''delete'' \<and> deleteFlag)\<rparr>"

subsection \<open>Writing and reading back\<close>

text \<open>
  A hash as the pattern wants it, and a lowercase hexadecimal digit. A written path
  survives the way back when reading cuts nothing off it (no line feed, no carriage return
  at its end, no \<^verbatim>\<open> *\<close> inside) and resolving it against the directory of the manifest
  gives the path of the entry again. \<open>afterWrite\<close> is the world in which the file holds
  what was written.
\<close>

definition isHash :: "string \<Rightarrow> bool" where
  "isHash h = (length h = 32 \<and> list_all isHex h)"

definition isLowerHex :: "char \<Rightarrow> bool" where
  "isLowerHex c = ((CHR ''0'' \<le> c \<and> c \<le> CHR ''9'') \<or> (CHR ''a'' \<le> c \<and> c \<le> CHR ''f''))"

definition survives :: "string \<Rightarrow> string \<Rightarrow> string \<Rightarrow> bool" where
  "survives dir path r =
     (LF \<notin> set r \<and> stripCR r = r \<and> Index r '' *'' = None \<and> resolve dir r = path)"

definition afterWrite :: "env \<Rightarrow> string \<Rightarrow> string \<Rightarrow> env" where
  "afterWrite env path bytes =
     env\<lparr>ioutil_ReadFile := (ioutil_ReadFile env)(path := Inr bytes)\<rparr>"

text \<open>
  Clean absolute paths, by their elements: an element is plain when it holds no separator,
  and normal when it is also neither empty nor \<^verbatim>\<open>.\<close> nor \<^verbatim>\<open>..\<close>. \<open>common\<close> removes the
  leading elements that two paths share.
\<close>

definition plainElem :: "string \<Rightarrow> bool" where
  "plainElem e = (Separator \<notin> set e)"

definition normalElem :: "string \<Rightarrow> bool" where
  "normalElem e = (e \<noteq> [] \<and> Separator \<notin> set e \<and> e \<noteq> ''.'' \<and> e \<noteq> ''..'')"

definition absPath :: "string list \<Rightarrow> string" where
  "absPath es = Separator # Join_strings es ''/''"

fun common :: "string list \<Rightarrow> string list \<Rightarrow> string list \<times> string list" where
  "common (d # ds) (p # ps) = (if d = p then common ds ps else (d # ds, p # ps))"
| "common ds ps = (ds, ps)"

text \<open>
  An entry is well formed when its hash is one and its path has no line feed. A run is free
  of line feeds when the output path, the paths the walk visits and the working directory
  have none.
\<close>

definition wellFormed :: "Checksum \<Rightarrow> bool" where
  "wellFormed c = (isHash (Hash c) \<and> LF \<notin> set (Path c))"

definition lineFeedFree :: "env \<Rightarrow> string \<Rightarrow> string \<Rightarrow> bool" where
  "lineFeedFree env source output =
     (LF \<notin> set output
      \<and> list_all (\<lambda>v. case v of Visit p isDir \<Rightarrow> LF \<notin> set p | VisitErr p err \<Rightarrow> True)
           (filepath_Walk env source)
      \<and> (case os_Getwd env of Inl err \<Rightarrow> True | Inr wd \<Rightarrow> LF \<notin> set wd))"

text \<open>A world without files, for what depends on paths only.\<close>

definition emptyWorld :: env where
  "emptyWorld = unixWorld [] [] []"

text \<open>
  A directory with one file, whose name holds a line feed followed by what reads as an
  entry: \<^verbatim>\<open>a\<close>, line feed, \<^verbatim>\<open>00000000000000000000000000000000 *b\<close>.
\<close>

definition lineFeedWorld :: env where
  "lineFeedWorld =
     unixWorld
       [(''/d/a'' @ [LF] @ ''00000000000000000000000000000000 *b'',
         0x9dd4e461268c8034f5c8564e155c67a6)]
       []
       [(''/d'',
           [Visit ''/d'' True,
            Visit (''/d/a'' @ [LF] @ ''00000000000000000000000000000000 *b'') False])]"

section \<open>Verification\<close>

subsection \<open>The verify command and its flag\<close>

text \<open>
  C1. With \<^verbatim>\<open>--basic\<close> the verify command is to check only that the file of each entry
  exists, without hashing. \<^verbatim>\<open>verifyCommand\<close> never reads the flag: in a world where
  \<^verbatim>\<open>/d/a.txt\<close> exists with the content \<^verbatim>\<open>y\<close> and the manifest records the digest of
  \<^verbatim>\<open>x\<close> for it, \<^verbatim>\<open>verify --basic /d/m.md5\<close> hashes the file, compares, and reports the
  entry as invalid.
\<close>

theorem verifyCommand_basic_flag_still_hashes:
  "verifyCommand
     (unixWorld [(''/d/a.txt'', 0x415290769594460e2e485922904f345d)]
        [(''/d/m.md5'', ''9dd4e461268c8034f5c8564e155c67a6 *a.txt'' @ [LF])] [])
     \<lparr>ctx_Args = [''/d/m.md5''], ctx_Bool = (\<lambda>flag. flag = ''basic'')\<rparr>
   = \<lparr>Printed = [Header ''Veryfing'' ''/d/m.md5'', ER_line ''/d/m.md5'',
                   EntryInvalid ''/d/a.txt'', Blank],
      ExitCode = 0, Written = None\<rparr>"
  by code_simp

text \<open>More generally, no flag changes what the verify command does.\<close>

lemma verifyCommand_ignores_flags:
  "verifyCommand env (ctx\<lparr>ctx_Bool := flags\<rparr>) = verifyCommand env ctx"
  by (simp add: verifyCommand_def)

subsection \<open>Parsing a manifest\<close>

text \<open>
  C6. A line is an entry exactly when it matches the pattern, and the path recorded for it
  is to be everything after the \<^verbatim>\<open>*\<close>. The line below matches, and what follows its
  \<^verbatim>\<open>*\<close> is \<^verbatim>\<open>a *b\<close>; \<^verbatim>\<open>readFile\<close> and \<^verbatim>\<open>readFileToMap\<close> split the line at every
  \<^verbatim>\<open> *\<close> and keep the second piece only, so they record the path \<^verbatim>\<open>a\<close>.
\<close>

theorem readFile_cuts_path_at_next_star:
  "MatchString ''d41d8cd98f00b204e9800998ecf8427e *a *b''
   \<and> drop 34 ''d41d8cd98f00b204e9800998ecf8427e *a *b'' = ''a *b''
   \<and> readFile
         (unixWorld [] [(''/d/m.md5'', ''d41d8cd98f00b204e9800998ecf8427e *a *b'' @ [LF])] [])
         ''/d/m.md5''
       = Inr [\<lparr>Hash = ''d41d8cd98f00b204e9800998ecf8427e'', Path = ''/d/a''\<rparr>]
   \<and> readFileToMap
         (unixWorld [] [(''/d/m.md5'', ''d41d8cd98f00b204e9800998ecf8427e *a *b'' @ [LF])] [])
         ''/d/m.md5''
       = Inr [(''/d/a'', \<lparr>Hash = ''d41d8cd98f00b204e9800998ecf8427e'', Path = ''/d/a''\<rparr>)]"
  by code_simp

subsection \<open>Verifying manifests\<close>

lemma generateMd5_cases:
  "generateMd5 env p = (if ioFailure env p then Inl (projl (generateMd5 env p)) else Inr (freshHash env p))"
  by (auto simp: generateMd5_def ioFailure_def freshHash_def split: sum.splits)

lemma Verify_classify:
  "Verify env c =
     (case classify env c of
        OK \<Rightarrow> (True, None)
      | Mismatched \<Rightarrow> (False, None)
      | Unreadable \<Rightarrow> (False, Some (projl (generateMd5 env (Path c)))))"
  by (auto simp: Verify_def classify_def generateMd5_def ioFailure_def freshHash_def split: sum.splits)

lemma verifyLoop_eq:
  "verifyLoop env path sums (h, out) =
     (h \<or> \<not> list_all (\<lambda>c. classify env c = OK) sums,
      out @ (if \<not> h \<and> \<not> list_all (\<lambda>c. classify env c = OK) sums then [ER_line path] else [])
          @ concat (map (entryReport env) sums))"
proof (induction sums arbitrary: h out)
  case Nil
  show ?case by simp
next
  case (Cons c sums)
  show ?case
    by (cases "classify env c") (simp_all add: Verify_classify entryReport_def Cons.IH)
qed

lemma entryReport_all_OK:
  "list_all (\<lambda>c. classify env c = OK) sums \<Longrightarrow> concat (map (entryReport env) sums) = []"
  by (induction sums) (simp_all add: entryReport_def)

lemma verifyFile_eq: "verifyFile env path = manifestReport env path"
  by (simp add: verifyFile_def manifestReport_def verifyLoop_eq entryReport_all_OK
      split: sum.splits)

lemma Walk_verify:
  "Walk vs (verifyWalkFn env) out = (None, out @ concat (map (visitReport env) vs))"
  by (induction vs arbitrary: out)
     (auto simp: verifyWalkFn_def visitReport_def verifyFile_eq split: visit.splits)


text \<open>
  C2, as the code has it. A failing entry aborts nothing: the command prints the report of
  the manifest, or of every manifest the walk visits, and each report covers every entry.
  The exit status does not depend on any classification: it is 0 when the path given can
  be stat'ed, and 1 when it cannot.
\<close>

theorem verifyCommand_exit_status:
  assumes "ctx_Args ctx = path # rest"
  shows "verifyCommand env ctx =
     (case os_Stat env path of
        Inl err \<Rightarrow>
          \<lparr>Printed = [Header ''Veryfing'' path, FatalError err], ExitCode = 1, Written = None\<rparr>
      | Inr isDir \<Rightarrow>
          \<lparr>Printed =
             [Header ''Veryfing'' path]
             @ (if isDir then concat (map (visitReport env) (filepath_Walk env path))
                else manifestReport env path)
             @ [Blank],
           ExitCode = 0, Written = None\<rparr>)"
  using assms
  by (simp add: verifyCommand_def Let_def Walk_verify verifyFile_eq split: sum.splits)

theorem verifyCommand_exit_status_witness:
  "verifyCommand verifyWorld \<lparr>ctx_Args = [''/d''], ctx_Bool = (\<lambda>flag. False)\<rparr>
     = \<lparr>Printed =
          [Header ''Veryfing'' ''/d'', ER_line ''/d/m.md5'', EntryInvalid ''/d/a.txt'',
           EntryError ''/d/gone.txt'', OK_line ''/d/sub/n.md5'', Blank],
        ExitCode = 0, Written = None\<rparr>"
proof -
  have args: "ctx_Args \<lparr>ctx_Args = [''/d''], ctx_Bool = (\<lambda>flag. False)\<rparr> = ''/d'' # []"
    by simp
  have stat: "os_Stat verifyWorld ''/d'' = Inr True"
    by code_simp
  have report: "concat (map (visitReport verifyWorld) (filepath_Walk verifyWorld ''/d''))
      = [ER_line ''/d/m.md5'', EntryInvalid ''/d/a.txt'', EntryError ''/d/gone.txt'',
         OK_line ''/d/sub/n.md5'']"
    by code_simp
  from verifyCommand_exit_status [OF args, of verifyWorld] show ?thesis
    unfolding stat report by simp
qed

text \<open>
  The claim as stated asks for a nonzero exit status as soon as one entry is not fine. In
  the example world the entry for \<^verbatim>\<open>a.txt\<close> is mismatched and the process exits with 0.
\<close>

theorem verify_mismatch_exits_zero:
  "readFile verifyWorld ''/d/m.md5''
     = Inr [\<lparr>Hash = ''9dd4e461268c8034f5c8564e155c67a6'', Path = ''/d/a.txt''\<rparr>,
            \<lparr>Hash = ''415290769594460e2e485922904f345d'', Path = ''/d/b.txt''\<rparr>,
            \<lparr>Hash = ''d41d8cd98f00b204e9800998ecf8427e'', Path = ''/d/gone.txt''\<rparr>]
   \<and> Verify verifyWorld \<lparr>Hash = ''9dd4e461268c8034f5c8564e155c67a6'', Path = ''/d/a.txt''\<rparr>
       = (False, None)
   \<and> ExitCode (verifyCommand verifyWorld
        \<lparr>ctx_Args = [''/d/m.md5''], ctx_Bool = (\<lambda>flag. False)\<rparr>) = 0"
  by code_simp


text \<open>
  C5. For a manifest that can be read: the report is the single line for a manifest in
  order exactly when every entry is fine, and otherwise the header with one line for every
  entry that is not, with its path. An entry is unreadable exactly when hashing its file
  ends in an error, which \<^verbatim>\<open>Verify\<close> then returns instead of a hash; mismatched exactly
  when the file is hashed and the fresh hash differs from the recorded one; fine otherwise.
\<close>

theorem verifyFile_classification:
  assumes "readFile env path = Inr sums"
  shows "verifyFile env path =
           (if list_all (\<lambda>c. classify env c = OK) sums then [OK_line path]
            else ER_line path # concat (map (entryReport env) sums))
    \<and> (OK_line path \<in> set (verifyFile env path)) = list_all (\<lambda>c. classify env c = OK) sums
    \<and> (classify env c = Unreadable) = (\<exists>err. generateMd5 env (Path c) = Inl err \<and> Verify env c = (False, Some err))
    \<and> (classify env c = Mismatched) = (\<exists>h. generateMd5 env (Path c) = Inr h \<and> h \<noteq> Hash c \<and> Verify env c = (False, None))
    \<and> (classify env c = OK) = (Verify env c = (True, None))"
proof -
  have a: "verifyFile env path =
           (if list_all (\<lambda>c. classify env c = OK) sums then [OK_line path]
            else ER_line path # concat (map (entryReport env) sums))"
    using assms by (simp add: verifyFile_eq manifestReport_def)
  have "OK_line path \<notin> set (entryReport env x)" for x
    by (simp add: entryReport_def split: status.splits)
  then have b: "(OK_line path \<in> set (verifyFile env path)) = list_all (\<lambda>c. classify env c = OK) sums"
    by (simp add: a)
  have c: "(classify env c = Unreadable) = (\<exists>err. generateMd5 env (Path c) = Inl err \<and> Verify env c = (False, Some err))"
    by (auto simp: Verify_def classify_def generateMd5_def ioFailure_def freshHash_def split: sum.splits)
  have d: "(classify env c = Mismatched) = (\<exists>h. generateMd5 env (Path c) = Inr h \<and> h \<noteq> Hash c \<and> Verify env c = (False, None))"
    by (auto simp: Verify_def classify_def generateMd5_def ioFailure_def freshHash_def split: sum.splits)
  have e: "(classify env c = OK) = (Verify env c = (True, None))"
    by (auto simp: Verify_def classify_def generateMd5_def ioFailure_def freshHash_def split: sum.splits)
  show ?thesis using a b c d e by blast
qed

theorem verifyFile_classification_witness:
  "verifyFile verifyWorld ''/d/m.md5''
     = [ER_line ''/d/m.md5'', EntryInvalid ''/d/a.txt'', EntryError ''/d/gone.txt'']
   \<and> OK_line ''/d/m.md5'' \<notin> set (verifyFile verifyWorld ''/d/m.md5'')
   \<and> classify verifyWorld \<lparr>Hash = ''d41d8cd98f00b204e9800998ecf8427e'', Path = ''/d/gone.txt''\<rparr>
       = Unreadable
   \<and> Verify verifyWorld \<lparr>Hash = ''d41d8cd98f00b204e9800998ecf8427e'', Path = ''/d/gone.txt''\<rparr>
       = (False, Some (noSuchFile ''/d/gone.txt''))"
proof -
  let ?sums = "[\<lparr>Hash = ''9dd4e461268c8034f5c8564e155c67a6'', Path = ''/d/a.txt''\<rparr>,
            \<lparr>Hash = ''415290769594460e2e485922904f345d'', Path = ''/d/b.txt''\<rparr>,
            \<lparr>Hash = ''d41d8cd98f00b204e9800998ecf8427e'', Path = ''/d/gone.txt''\<rparr>]"
  let ?c = "\<lparr>Hash = ''d41d8cd98f00b204e9800998ecf8427e'', Path = ''/d/gone.txt''\<rparr>"
  have parsed: "readFile verifyWorld ''/d/m.md5'' = Inr ?sums"
    by code_simp
  have all_ok: "list_all (\<lambda>c. classify verifyWorld c = OK) ?sums = False"
    by code_simp
  have report: "concat (map (entryReport verifyWorld) ?sums)
      = [EntryInvalid ''/d/a.txt'', EntryError ''/d/gone.txt'']"
    by code_simp
  have cls: "classify verifyWorld ?c = Unreadable"
    by code_simp
  have gen: "generateMd5 verifyWorld ''/d/gone.txt'' = Inl (noSuchFile ''/d/gone.txt'')"
    by code_simp
  from verifyFile_classification [OF parsed, of ?c] all_ok report cls gen show ?thesis
    by simp
qed

subsection \<open>Searching, splitting and replacing\<close>

lemma Index_append:
  "sep \<noteq> [] \<Longrightarrow> hd sep \<notin> set a \<Longrightarrow> Index (a @ sep @ r) sep = Some (length a)"
proof (induction a)
  case Nil
  then show ?case by (cases sep) simp_all
next
  case (Cons c a)
  then have "\<not> prefix sep (c # a @ sep @ r)"
    by (cases sep) auto
  with Cons show ?case by simp
qed

lemma Index_None:
  "sep \<noteq> [] \<Longrightarrow> hd sep \<notin> set s \<Longrightarrow> Index s sep = None"
proof (induction s)
  case Nil
  then show ?case by simp
next
  case (Cons c s)
  then have "\<not> prefix sep (c # s)"
    by (cases sep) auto
  with Cons show ?case by simp
qed

lemma Index_char_first: "Index s [x] = Some m \<Longrightarrow> x \<notin> set (take m s)"
proof (induction s arbitrary: m)
  case Nil
  then show ?case by simp
next
  case (Cons c s)
  show ?case
  proof (cases "c = x")
    case True
    with Cons.prems show ?thesis by simp
  next
    case False
    with Cons.prems obtain k where "Index s [x] = Some k" "m = Suc k" by auto
    with Cons.IH False show ?thesis by auto
  qed
qed

lemma Index_char_None: "Index s [x] = None \<Longrightarrow> x \<notin> set s"
  by (induction s) (auto split: if_splits)

lemma Split_Nil: "sep \<noteq> [] \<Longrightarrow> Split [] sep = [[]]"
  by (simp add: Split.simps)

lemma Split_append:
  "sep \<noteq> [] \<Longrightarrow> hd sep \<notin> set a \<Longrightarrow> Split (a @ sep @ r) sep = a # Split r sep"
  by (subst Split.simps) (simp add: Index_append)

lemma Split_none:
  "sep \<noteq> [] \<Longrightarrow> Index s sep = None \<Longrightarrow> Split s sep = [s]"
  by (subst Split.simps) simp

lemma Split_not_Nil: "sep \<noteq> [] \<Longrightarrow> Split s sep \<noteq> []"
  by (subst Split.simps) (simp split: option.splits)

lemma Split_lines:
  "list_all (\<lambda>l. LF \<notin> set l) ls \<Longrightarrow> Split (concat (map (\<lambda>l. l @ [LF]) ls)) [LF] = ls @ [[]]"
proof (induction ls)
  case Nil
  show ?case by (simp add: Split_Nil)
next
  case (Cons l ls)
  then have "Split (l @ [LF] @ concat (map (\<lambda>l. l @ [LF]) ls)) [LF] = l # ls @ [[]]"
    by (subst Split_append) simp_all
  then show ?case by simp
qed

lemma Split_pieces: "list_all (\<lambda>l. x \<notin> set l) (Split s [x])"
proof (induction s "[x]" rule: Split.induct)
  case (1 s)
  show ?case
  proof (cases "Index s [x]")
    case None
    then show ?thesis
      by (subst Split.simps) (simp add: Index_char_None)
  next
    case (Some m)
    with 1 have "list_all (\<lambda>l. x \<notin> set l) (Split (drop (m + length [x]) s) [x])"
      by simp
    with Some show ?thesis
      by (subst Split.simps) (simp add: Index_char_first)
  qed
qed



lemma Index_CRLF:
  "LF \<notin> set l \<Longrightarrow>
   Index (l @ LF # rest) [CR, LF] =
     (if l \<noteq> [] \<and> last l = CR then Some (length l - 1)
      else map_option (\<lambda>m. m + length l + 1) (Index rest [CR, LF]))"
proof (induction l)
  case Nil
  show ?case by (simp add: option.map_comp comp_def)
next
  case (Cons c l)
  show ?case
  proof (cases "c = CR \<and> l = []")
    case True
    then show ?thesis by simp
  next
    case False
    with Cons.prems have np: "\<not> prefix [CR, LF] (c # l @ LF # rest)"
      by (cases l) auto
    from False Cons.prems have eq: "((c # l) \<noteq> [] \<and> last (c # l) = CR) = (l \<noteq> [] \<and> last l = CR)"
      by auto
    from Cons.prems have "LF \<notin> set l" by simp
    from Cons.IH [OF this] np show ?thesis
      unfolding eq by (cases "l = []") (auto simp: option.map_comp comp_def)
  qed
qed

lemma Replace_Nil: "Replace [] [CR, LF] [LF] = []"
  by (simp add: Replace.simps)

lemma Replace_line:
  assumes "LF \<notin> set l"
  shows "Replace (l @ LF # rest) [CR, LF] [LF] = stripCR l @ LF # Replace rest [CR, LF] [LF]"
proof (cases "l \<noteq> [] \<and> last l = CR")
  case True
  then obtain b where l: "l = b @ [CR]"
    by (metis append_butlast_last_id)
  have "Index (l @ LF # rest) [CR, LF] = Some (length b)"
    using Index_CRLF [OF assms, of rest] l by simp
  moreover have "take (length b) (l @ LF # rest) = b"
    by (simp add: l)
  moreover have "drop (length b + 2) (l @ LF # rest) = rest"
    by (simp add: l)
  ultimately show ?thesis
    by (subst Replace.simps) (simp add: stripCR_def l)
next
  case False
  then have ix: "Index (l @ LF # rest) [CR, LF] = map_option (\<lambda>m. m + length l + 1) (Index rest [CR, LF])"
    using Index_CRLF [OF assms, of rest] by auto
  from False have keep: "stripCR l = l"
    by (auto simp: stripCR_def)
  show ?thesis
  proof (cases "Index rest [CR, LF]")
    case None
    with ix show ?thesis
      by (subst Replace.simps, subst (2) Replace.simps) (simp add: keep)
  next
    case (Some m)
    with ix show ?thesis
      by (subst Replace.simps, subst (2) Replace.simps) (simp add: keep add.assoc numeral_3_eq_3)
  qed
qed

lemma Replace_lines:
  "list_all (\<lambda>l. LF \<notin> set l) ls \<Longrightarrow>
   Replace (concat (map (\<lambda>l. l @ [LF]) ls)) [CR, LF] [LF]
     = concat (map (\<lambda>l. stripCR l @ [LF]) ls)"
  by (induction ls) (simp_all add: Replace_Nil Replace_line)

lemma stripCR_no_LF: "LF \<notin> set l \<Longrightarrow> LF \<notin> set (stripCR l)"
  by (auto simp: stripCR_def dest: in_set_butlastD)

subsection \<open>Lines and entries\<close>

lemma isHex_not_space: "isHex c \<Longrightarrow> c \<noteq> CHR '' ''"
  by (auto simp: isHex_def less_eq_char_def)

lemma isHex_not_LF: "isHex c \<Longrightarrow> c \<noteq> LF"
  by (auto simp: isHex_def less_eq_char_def)

lemma hex_no_space: "list_all isHex h \<Longrightarrow> CHR '' '' \<notin> set h"
  by (induction h) (auto dest: isHex_not_space)

lemma hex_no_LF: "list_all isHex h \<Longrightarrow> LF \<notin> set h"
  by (induction h) (auto dest: isHex_not_LF)

lemma MatchString_split:
  assumes "MatchString line"
  shows "line = take 32 line @ '' *'' @ drop 34 line" and "length (take 32 line) = 32"
    and "list_all isHex (take 32 line)" and "LF \<notin> set (drop 34 line)"
proof -
  from assms have len: "length (take 32 line) = 32" and hex: "list_all isHex (take 32 line)"
    and pre: "prefix '' *'' (drop 32 line)" and lf: "LF \<notin> set (drop 32 line)"
    by (simp_all add: MatchString_def Let_def)
  from pre obtain r where r: "drop 32 line = '' *'' @ r"
    by (auto simp: prefix_def)
  then have "drop 2 (drop 32 line) = r" by simp
  then have r34: "drop 34 line = r" by simp
  have "line = take 32 line @ drop 32 line" by simp
  with r r34 show "line = take 32 line @ '' *'' @ drop 34 line" by simp
  show "length (take 32 line) = 32" by (rule len)
  show "list_all isHex (take 32 line)" by (rule hex)
  from lf r r34 show "LF \<notin> set (drop 34 line)" by auto
qed

lemma MatchString_intro:
  "length h = 32 \<Longrightarrow> list_all isHex h \<Longrightarrow> LF \<notin> set r \<Longrightarrow> MatchString (h @ '' *'' @ r)"
  by (simp add: MatchString_def Let_def)

lemma MatchString_iff:
  "MatchString line =
     (\<exists>h r. line = h @ '' *'' @ r \<and> length h = 32 \<and> list_all isHex h \<and> LF \<notin> set r)"
  using MatchString_split [of line] MatchString_intro by metis

lemma Split_entry:
  assumes "CHR '' '' \<notin> set h"
  shows "Split (h @ '' *'' @ r) '' *'' = h # Split r '' *''"
  using assms by (intro Split_append) simp_all

lemma hd_Split: "hd (Split r '' *'') = firstPiece r"
  by (subst Split.simps) (simp add: firstPiece_def split: option.splits)

lemma lineEntry_eq:
  assumes "CHR '' '' \<notin> set h"
  shows "lineEntry dir (h @ '' *'' @ r) = \<lparr>Hash = h, Path = resolve dir (firstPiece r)\<rparr>"
proof -
  have sp: "Split (h @ '' *'' @ r) '' *'' = h # Split r '' *''"
    by (rule Split_entry [OF assms])
  have "Split r '' *'' \<noteq> []" by (rule Split_not_Nil) simp
  then obtain p ps where ps: "Split r '' *'' = p # ps"
    by (cases "Split r '' *''") auto
  with hd_Split [of r] have p: "p = firstPiece r" by simp
  show ?thesis
    unfolding lineEntry_def Let_def sp ps
    by (simp add: resolve_def p del: Join.simps)
qed

lemma MatchString_Split_length:
  assumes "MatchString line"
  shows "2 \<le> length (Split line '' *'')"
proof -
  from MatchString_split [OF assms] have l: "line = take 32 line @ '' *'' @ drop 34 line"
    and "CHR '' '' \<notin> set (take 32 line)"
    by (auto dest: hex_no_space)
  then have "Split line '' *'' = take 32 line # Split (drop 34 line) '' *''"
    using Split_entry by metis
  moreover have "Split (drop 34 line) '' *'' \<noteq> []" by (rule Split_not_Nil) simp
  ultimately show ?thesis by (cases "Split (drop 34 line) '' *''") simp_all
qed

lemma lineEntry_MatchString:
  assumes "MatchString line"
  shows "lineEntry dir line
    = \<lparr>Hash = take 32 line, Path = resolve dir (firstPiece (drop 34 line))\<rparr>"
proof -
  from MatchString_split [OF assms] have l: "line = take 32 line @ '' *'' @ drop 34 line"
    and sp: "CHR '' '' \<notin> set (take 32 line)"
    by (auto dest: hex_no_space)
  from lineEntry_eq [OF sp, of dir "drop 34 line"] l show ?thesis by simp
qed

lemma not_MatchString_Nil: "\<not> MatchString []"
  by (simp add: MatchString_def)

lemma readLines_eq:
  "readLines dir lines sums = sums @ map (lineEntry dir) (filter MatchString lines)"
  by (induction lines arbitrary: sums) (auto simp: not_MatchString_Nil)

lemma map_lineEntry:
  "map (lineEntry dir) (filter MatchString ls)
     = map (\<lambda>line. \<lparr>Hash = take 32 line, Path = resolve dir (firstPiece (drop 34 line))\<rparr>)
         (filter MatchString ls)"
  by (induction ls) (simp_all add: lineEntry_MatchString)

lemma readFile_eq:
  "readFile env path =
     (case ioutil_ReadFile env path of
        Inl err \<Rightarrow> Inl err
      | Inr data \<Rightarrow> Inr (parseSpec (Dir path) data))"
  by (simp add: readFile_def readLines_eq parseSpec_def map_lineEntry split: sum.splits)

text \<open>A map filled entry by entry keeps, for every path, the last entry with that path.\<close>

lemma lastFor_snoc:
  "lastFor k (sums @ [c]) = (if Path c = k then Some c else lastFor k sums)"
  by (simp add: lastFor_def Let_def)

lemma list_all_update:
  "P (k, v) \<Longrightarrow> list_all P m \<Longrightarrow> list_all P (AList.update k v m)"
  by (induction m) auto

lemma keyedByPath_update:
  "keyedByPath m \<Longrightarrow> keyedByPath (AList.update (Path c) c m)"
  by (simp add: keyedByPath_def distinct_update list_all_update)

lemma readLinesToMap_eq:
  "readLinesToMap dir lines m
     = fold (\<lambda>c m. AList.update (Path c) c m) (map (lineEntry dir) (filter MatchString lines)) m"
  by (induction lines arbitrary: m) (auto simp: not_MatchString_Nil)

lemma fold_update_keyed:
  "keyedByPath m \<Longrightarrow> keyedByPath (fold (\<lambda>c m. AList.update (Path c) c m) sums m)"
  by (induction sums arbitrary: m) (simp_all add: keyedByPath_update)

lemma fold_update_last:
  "map_of (fold (\<lambda>c m. AList.update (Path c) c m) sums m) k
     = (case lastFor k sums of None \<Rightarrow> map_of m k | Some c \<Rightarrow> Some c)"
proof (induction sums rule: rev_induct)
  case Nil
  show ?case by (simp add: lastFor_def)
next
  case (snoc c sums)
  then show ?case
    by (simp add: lastFor_snoc update_conv')
qed

lemma readFileToMap_eq:
  "readFileToMap env path =
     (case ioutil_ReadFile env path of
        Inl err \<Rightarrow> Inl err
      | Inr data \<Rightarrow>
          Inr (fold (\<lambda>c m. AList.update (Path c) c m) (parseSpec (Dir path) data) []))"
  by (simp add: readFileToMap_def readLinesToMap_eq parseSpec_def map_lineEntry
      split: sum.splits)

text \<open>
  C9. When the manifest can be read, \<^verbatim>\<open>readFileToMap\<close> returns a map with one entry a
  key, every entry under its own path, and for every path the last of the parsed entries
  with that path. The parsed entries are those of the specification: a recorded path that
  is not absolute is joined to the directory of the manifest. The working directory plays
  no part: the result is the same whatever \<^verbatim>\<open>os.Getwd\<close> returns.
\<close>

theorem readFileToMap_resolves_and_keys:
  assumes "ioutil_ReadFile env path = Inr data"
  shows "\<exists>m. readFileToMap env path = Inr m
    \<and> readFileToMap (env\<lparr>os_Getwd := wd\<rparr>) path = Inr m
    \<and> keyedByPath m
    \<and> map_of m k = lastFor k (parseSpec (Dir path) data)
    \<and> readFile env path = Inr (parseSpec (Dir path) data)"
proof -
  let ?m = "fold (\<lambda>c m. AList.update (Path c) c m) (parseSpec (Dir path) data) []"
  have "readFileToMap env path = Inr ?m"
    using assms by (simp add: readFileToMap_eq)
  moreover have "readFileToMap (env\<lparr>os_Getwd := wd\<rparr>) path = Inr ?m"
    using assms by (simp add: readFileToMap_eq)
  moreover have "keyedByPath ?m"
    by (rule fold_update_keyed) (simp add: keyedByPath_def)
  moreover have "map_of ?m k = lastFor k (parseSpec (Dir path) data)"
    by (simp add: fold_update_last split: option.splits)
  moreover have "readFile env path = Inr (parseSpec (Dir path) data)"
    using assms by (simp add: readFile_eq)
  ultimately show ?thesis by blast
qed

theorem readFileToMap_resolves_and_keys_witness:
  "readFileToMap parseWorld ''sub/m.md5''
     = Inr [(''sub/a.txt'', \<lparr>Hash = ''d41d8cd98f00b204e9800998ecf8427e'', Path = ''sub/a.txt''\<rparr>),
            (''/abs/b.txt'', \<lparr>Hash = ''415290769594460E2E485922904F345D'', Path = ''/abs/b.txt''\<rparr>)]
   \<and> os_Getwd parseWorld = Inr ''/d''
   \<and> readFile parseWorld ''sub/m.md5''
     = Inr [\<lparr>Hash = ''9dd4e461268c8034f5c8564e155c67a6'', Path = ''sub/a.txt''\<rparr>,
            \<lparr>Hash = ''415290769594460E2E485922904F345D'', Path = ''/abs/b.txt''\<rparr>,
            \<lparr>Hash = ''d41d8cd98f00b204e9800998ecf8427e'', Path = ''sub/a.txt''\<rparr>]
   \<and> map_of [(''sub/a.txt'', \<lparr>Hash = ''d41d8cd98f00b204e9800998ecf8427e'', Path = ''sub/a.txt''\<rparr>),
              (''/abs/b.txt'', \<lparr>Hash = ''415290769594460E2E485922904F345D'', Path = ''/abs/b.txt''\<rparr>)]
         ''sub/a.txt''
     = lastFor ''sub/a.txt''
         [\<lparr>Hash = ''9dd4e461268c8034f5c8564e155c67a6'', Path = ''sub/a.txt''\<rparr>,
          \<lparr>Hash = ''415290769594460E2E485922904F345D'', Path = ''/abs/b.txt''\<rparr>,
          \<lparr>Hash = ''d41d8cd98f00b204e9800998ecf8427e'', Path = ''sub/a.txt''\<rparr>]"
proof -
  obtain data where data: "ioutil_ReadFile parseWorld ''sub/m.md5'' = Inr data"
    by (simp add: parseWorld_def unixWorld_def)
  have m: "readFileToMap parseWorld ''sub/m.md5''
     = Inr [(''sub/a.txt'', \<lparr>Hash = ''d41d8cd98f00b204e9800998ecf8427e'', Path = ''sub/a.txt''\<rparr>),
            (''/abs/b.txt'', \<lparr>Hash = ''415290769594460E2E485922904F345D'', Path = ''/abs/b.txt''\<rparr>)]"
    by code_simp
  have wd: "os_Getwd parseWorld = Inr ''/d''"
    by code_simp
  have sums: "readFile parseWorld ''sub/m.md5''
     = Inr [\<lparr>Hash = ''9dd4e461268c8034f5c8564e155c67a6'', Path = ''sub/a.txt''\<rparr>,
            \<lparr>Hash = ''415290769594460E2E485922904F345D'', Path = ''/abs/b.txt''\<rparr>,
            \<lparr>Hash = ''d41d8cd98f00b204e9800998ecf8427e'', Path = ''sub/a.txt''\<rparr>]"
    by code_simp
  from readFileToMap_resolves_and_keys [OF data, of "Inr ''/elsewhere''" "''sub/a.txt''"]
  show ?thesis
    unfolding m wd sums by auto
qed

subsection \<open>Ranging over a map\<close>

lemma map_filter_keys:
  "distinct (map fst m) \<Longrightarrow>
   List.map_filter (\<lambda>k. map_option (Pair k) (map_of m k)) (map fst m) = m"
proof -
  assume d: "distinct (map fst m)"
  have "List.map_filter (\<lambda>k. map_option (Pair k) (map_of m k)) (map fst xs) = xs"
    if "set xs \<subseteq> set m" for xs
    using that
  proof (induction xs)
    case Nil
    show ?case by (simp add: List.map_filter_simps)
  next
    case (Cons x xs)
    then have "x \<in> set m" by simp
    with d have "map_of m (fst x) = Some (snd x)" by (cases x) simp
    with Cons show ?case by (simp add: List.map_filter_simps)
  qed
  from this [of m] show ?thesis by simp
qed

lemma mset_map_filter:
  "mset xs = mset ys \<Longrightarrow> mset (List.map_filter f xs) = mset (List.map_filter f ys)"
  by (simp add: List.map_filter_def)

lemma mset_rangeMap:
  assumes "range_ok env" and "distinct (map fst m)"
  shows "mset (rangeMap env m) = mset m"
proof -
  from assms(1) have "mset (map_range env (map fst m)) = mset (map fst m)"
    by (simp add: range_ok_def)
  from mset_map_filter [OF this, of "\<lambda>k. map_option (Pair k) (map_of m k)"]
    map_filter_keys [OF assms(2)]
  show ?thesis
    by (simp add: rangeMap_def)
qed

lemma set_rangeMap:
  "range_ok env \<Longrightarrow> distinct (map fst m) \<Longrightarrow> set (rangeMap env m) = set m"
  by (metis mset_rangeMap set_mset_mset)

lemma keys_rangeMap:
  assumes "range_ok env" and "distinct (map fst m)"
  shows "set (map fst (rangeMap env m)) = set (map fst m)"
    and "distinct (map fst (rangeMap env m))"
proof -
  from mset_rangeMap [OF assms] have "mset (map fst (rangeMap env m)) = mset (map fst m)"
    by simp
  then show "set (map fst (rangeMap env m)) = set (map fst m)"
    and "distinct (map fst (rangeMap env m))"
    using assms(2) by (metis set_mset_mset, metis mset_eq_imp_distinct_iff)
qed

subsection \<open>The loops of the update command\<close>

lemma list_all_delete: "list_all P m \<Longrightarrow> list_all P (AList.delete k m)"
  by (induction m) auto

lemma keyedByPath_delete: "keyedByPath m \<Longrightarrow> keyedByPath (AList.delete k m)"
  by (simp add: keyedByPath_def distinct_delete list_all_delete)

lemma deleteLoop_keyed: "keyedByPath tm \<Longrightarrow> keyedByPath (deleteLoop sm keys tm)"
  by (induction keys arbitrary: tm) (simp_all add: keyedByPath_delete)

lemma deleteLoop_map:
  "map_of (deleteLoop sm keys tm) p =
     (if p \<in> set keys \<and> map_of sm p = None then None else map_of tm p)"
  by (induction keys arbitrary: tm) (auto simp: delete_conv')

lemma insertLoop_keyed:
  "insertLoop env keys (tm, hashed) = Inr (tm', hashed') \<Longrightarrow> keyedByPath tm \<Longrightarrow> keyedByPath tm'"
proof (induction keys arbitrary: tm hashed)
  case Nil
  then show ?case by simp
next
  case (Cons key keys)
  show ?case
  proof (cases "map_of tm key = None")
    case False
    with Cons show ?thesis by simp
  next
    case True
    with Cons.prems obtain hash where h: "generateMd5 env key = Inr hash"
      by (auto split: sum.splits)
    have "keyedByPath (AList.update key \<lparr>Hash = hash, Path = key\<rparr> tm)"
      using keyedByPath_update [OF Cons.prems(2), of "\<lparr>Hash = hash, Path = key\<rparr>"] by simp
    with Cons.IH Cons.prems(1) True h show ?thesis by simp
  qed
qed

lemma filter_update_other:
  "key \<notin> set keys \<Longrightarrow>
   filter (\<lambda>k. map_of (AList.update key c tm) k = None) keys = filter (\<lambda>k. map_of tm k = None) keys"
  by (intro filter_cong) (auto simp: update_conv')

lemma insertLoop_eq:
  assumes "distinct keys"
    and "list_all (hashable env) (filter (\<lambda>k. map_of tm k = None) keys)"
  shows "\<exists>tm'. insertLoop env keys (tm, hashed)
                  = Inr (tm', hashed @ filter (\<lambda>k. map_of tm k = None) keys)
    \<and> (\<forall>p. map_of tm' p =
           (if p \<in> set keys \<and> map_of tm p = None then
              (case generateMd5 env p of
                 Inl err \<Rightarrow> None
               | Inr hash \<Rightarrow> Some \<lparr>Hash = hash, Path = p\<rparr>)
            else map_of tm p))"
  using assms
proof (induction keys arbitrary: tm hashed)
  case Nil
  show ?case by simp
next
  case (Cons key keys)
  from Cons.prems have d: "distinct keys" and nk: "key \<notin> set keys" by simp_all
  show ?case
  proof (cases "map_of tm key")
    case (Some c)
    with Cons.prems have "list_all (hashable env) (filter (\<lambda>k. map_of tm k = None) keys)"
      by simp
    from Cons.IH [OF d this, of hashed] obtain tm' where
      "insertLoop env keys (tm, hashed) = Inr (tm', hashed @ filter (\<lambda>k. map_of tm k = None) keys)"
      and m: "\<forall>p. map_of tm' p =
           (if p \<in> set keys \<and> map_of tm p = None then
              (case generateMd5 env p of
                 Inl err \<Rightarrow> None
               | Inr hash \<Rightarrow> Some \<lparr>Hash = hash, Path = p\<rparr>)
            else map_of tm p)"
      by blast
    with Some show ?thesis by auto
  next
    case None
    with Cons.prems obtain hash where h: "generateMd5 env key = Inr hash"
      by (auto simp: hashable_def split: sum.splits)
    let ?tm = "AList.update key \<lparr>Hash = hash, Path = key\<rparr> tm"
    have f: "filter (\<lambda>k. map_of ?tm k = None) keys = filter (\<lambda>k. map_of tm k = None) keys"
      by (rule filter_update_other [OF nk])
    with Cons.prems None have "list_all (hashable env) (filter (\<lambda>k. map_of ?tm k = None) keys)"
      by simp
    from Cons.IH [OF d this, of "hashed @ [key]"] obtain tm' where
      r: "insertLoop env keys (?tm, hashed @ [key])
            = Inr (tm', (hashed @ [key]) @ filter (\<lambda>k. map_of ?tm k = None) keys)"
      and m: "\<forall>p. map_of tm' p =
           (if p \<in> set keys \<and> map_of ?tm p = None then
              (case generateMd5 env p of
                 Inl err \<Rightarrow> None
               | Inr hash \<Rightarrow> Some \<lparr>Hash = hash, Path = p\<rparr>)
            else map_of ?tm p)"
      by blast
    from r None h f have
      "insertLoop env (key # keys) (tm, hashed)
         = Inr (tm', hashed @ filter (\<lambda>k. map_of tm k = None) (key # keys))"
      by simp
    moreover from m nk None h have "\<forall>p. map_of tm' p =
           (if p \<in> set (key # keys) \<and> map_of tm p = None then
              (case generateMd5 env p of
                 Inl err \<Rightarrow> None
               | Inr hash \<Rightarrow> Some \<lparr>Hash = hash, Path = p\<rparr>)
            else map_of tm p)"
      by (auto simp: update_conv')
    ultimately show ?thesis by blast
  qed
qed

lemma insertLoop_needs_hashes:
  assumes "insertLoop env keys (tm, hashed) = Inr st" and "distinct keys"
  shows "list_all (hashable env) (filter (\<lambda>k. map_of tm k = None) keys)"
  using assms
proof (induction keys arbitrary: tm hashed)
  case Nil
  show ?case by simp
next
  case (Cons key keys)
  from Cons.prems have d: "distinct keys" and nk: "key \<notin> set keys" by simp_all
  show ?case
  proof (cases "map_of tm key")
    case (Some c)
    with Cons.prems Cons.IH [OF _ d, of tm hashed] show ?thesis by simp
  next
    case None
    with Cons.prems obtain hash where h: "generateMd5 env key = Inr hash"
      by (auto split: sum.splits)
    let ?tm = "AList.update key \<lparr>Hash = hash, Path = key\<rparr> tm"
    from Cons.prems None h have "insertLoop env keys (?tm, hashed @ [key]) = Inr st"
      by simp
    from Cons.IH [OF this d] filter_update_other [OF nk, of "\<lparr>Hash = hash, Path = key\<rparr>" tm]
    have "list_all (hashable env) (filter (\<lambda>k. map_of tm k = None) keys)"
      by simp
    moreover from h have "hashable env key" by (simp add: hashable_def)
    ultimately show ?thesis using None by simp
  qed
qed

lemma Walk_update_distinct:
  "Walk vs (updateWalkFn env target targetBase) sm = (r, sm') \<Longrightarrow>
   distinct (map fst sm) \<Longrightarrow> distinct (map fst sm')"
proof (induction vs arbitrary: sm)
  case Nil
  then show ?case by simp
next
  case (Cons v vs)
  obtain e sm1 where step: "updateWalkFn env target targetBase v sm = (e, sm1)"
    by (cases "updateWalkFn env target targetBase v sm")
  with Cons.prems(2) have d: "distinct (map fst sm1)"
    by (auto simp: updateWalkFn_def distinct_update split: visit.splits if_splits sum.splits bool.splits)
  show ?case
  proof (cases e)
    case None
    with Cons.prems(1) step have "Walk vs (updateWalkFn env target targetBase) sm1 = (r, sm')"
      by simp
    from Cons.IH [OF this d] show ?thesis .
  next
    case (Some err)
    with Cons.prems(1) step d show ?thesis by simp
  qed
qed

lemma keyedByPath_Nil: "keyedByPath []"
  by (simp add: keyedByPath_def)

lemma readFileToMap_keyed: "readFileToMap env path = Inr m \<Longrightarrow> keyedByPath m"
  using fold_update_keyed [OF keyedByPath_Nil]
  by (auto simp: readFileToMap_eq split: sum.splits)

lemma pairs_of_values:
  "list_all (\<lambda>(k, c). k = Path c) xs \<Longrightarrow> map (\<lambda>c. (Path c, c)) (map snd xs) = xs"
  by (induction xs) auto

lemma kept_map:
  assumes "range_ok env" and "distinct (map fst tm)"
  shows "map_of (if del then deleteLoop sm (map fst (rangeMap env tm)) tm else tm) p
           = keptSpec del (set (map fst sm)) (map_of tm) p"
proof (cases del)
  case False
  then show ?thesis by (simp add: keptSpec_def)
next
  case True
  have "(p \<in> set (map fst (rangeMap env tm))) = (map_of tm p \<noteq> None)"
    using keys_rangeMap(1) [OF assms] by (simp add: map_of_eq_None_iff)
  moreover have "(map_of sm p = None) = (p \<notin> set (map fst sm))"
    by (simp add: map_of_eq_None_iff)
  ultimately show ?thesis
    using True by (auto simp: keptSpec_def deleteLoop_map restrict_map_def)
qed

lemma list_all_filter_set:
  "set xs = set ys \<Longrightarrow> list_all P (filter Q xs) = list_all P (filter Q ys)"
  by (auto simp: list_all_iff)

lemma reconcile_spec:
  assumes rng: "range_ok env" and dsm: "distinct (map fst sm)" and ktm: "keyedByPath tm"
  shows "if list_all (hashable env)
              (filter (\<lambda>p. keptSpec del (set (map fst sm)) (map_of tm) p = None) (map fst sm))
         then \<exists>tm' hashed. reconcile env del sm tm = Inr (tm', hashed)
                \<and> keyedByPath tm'
                \<and> map_of tm' = updateSpec env del (set (map fst sm)) (map_of tm)
                \<and> set hashed = {p \<in> set (map fst sm). keptSpec del (set (map fst sm)) (map_of tm) p = None}
         else \<exists>err. reconcile env del sm tm = Inl err"
proof -
  let ?tm1 = "if del then deleteLoop sm (map fst (rangeMap env tm)) tm else tm"
  let ?keys = "map fst (rangeMap env sm)"
  let ?kept = "keptSpec del (set (map fst sm)) (map_of tm)"
  from ktm have dtm: "distinct (map fst tm)" by (simp add: keyedByPath_def)
  have k1: "keyedByPath ?tm1" using ktm by (simp add: deleteLoop_keyed)
  have m1: "map_of ?tm1 p = ?kept p" for p by (rule kept_map [OF rng dtm])
  have dk: "distinct ?keys" and sk: "set ?keys = set (map fst sm)"
    using keys_rangeMap [OF rng dsm] by simp_all
  have rec: "reconcile env del sm tm = insertLoop env ?keys (?tm1, [])"
    by (simp add: reconcile_def Let_def)
  have needed: "list_all (hashable env) (filter (\<lambda>k. map_of ?tm1 k = None) ?keys)
      = list_all (hashable env) (filter (\<lambda>p. ?kept p = None) (map fst sm))"
    unfolding m1 by (rule list_all_filter_set [OF sk])
  show ?thesis
  proof (cases "list_all (hashable env) (filter (\<lambda>p. ?kept p = None) (map fst sm))")
    case True
    with needed have "list_all (hashable env) (filter (\<lambda>k. map_of ?tm1 k = None) ?keys)"
      by simp
    from insertLoop_eq [OF dk this, of "[]"] obtain tm' where
      r: "insertLoop env ?keys (?tm1, []) = Inr (tm', [] @ filter (\<lambda>k. map_of ?tm1 k = None) ?keys)"
      and m: "\<forall>p. map_of tm' p =
           (if p \<in> set ?keys \<and> map_of ?tm1 p = None then
              (case generateMd5 env p of
                 Inl err \<Rightarrow> None
               | Inr hash \<Rightarrow> Some \<lparr>Hash = hash, Path = p\<rparr>)
            else map_of ?tm1 p)"
      by blast
    have "keyedByPath tm'" by (rule insertLoop_keyed [OF r k1])
    moreover have "map_of tm' = updateSpec env del (set (map fst sm)) (map_of tm)"
      using m unfolding m1 sk by (auto simp: updateSpec_def)
    moreover have "set ([] @ filter (\<lambda>k. map_of ?tm1 k = None) ?keys)
        = {p \<in> set (map fst sm). ?kept p = None}"
      unfolding m1 using sk by auto
    ultimately show ?thesis using True r rec by auto
  next
    case False
    have "\<exists>err. reconcile env del sm tm = Inl err"
    proof (cases "reconcile env del sm tm")
      case (Inl err)
      then show ?thesis by blast
    next
      case (Inr st)
      with rec have "insertLoop env ?keys (?tm1, []) = Inr st" by simp
      from insertLoop_needs_hashes [OF this dk] needed False show ?thesis by simp
    qed
    with False show ?thesis by simp
  qed
qed

lemma slice_of_map:
  assumes "range_ok env" and "keyedByPath tm"
  shows "distinct (map Path (map snd (rangeMap env tm)))"
    and "map_of (map (\<lambda>c. (Path c, c)) (map snd (rangeMap env tm))) = map_of tm"
    and "set (map snd (rangeMap env tm)) = snd ` set tm"
proof -
  from assms(2) have d: "distinct (map fst tm)" and k: "list_all (\<lambda>(k, c). k = Path c) tm"
    by (simp_all add: keyedByPath_def)
  have s: "set (rangeMap env tm) = set tm" by (rule set_rangeMap [OF assms(1) d])
  with k have "list_all (\<lambda>(k, c). k = Path c) (rangeMap env tm)"
    by (simp add: list_all_iff)
  then have eq: "map (\<lambda>c. (Path c, c)) (map snd (rangeMap env tm)) = rangeMap env tm"
    by (rule pairs_of_values)
  then have fsts: "map Path (map snd (rangeMap env tm)) = map fst (rangeMap env tm)"
    by (metis (no_types, lifting) map_eq_conv map_map comp_apply fst_conv)
  show "distinct (map Path (map snd (rangeMap env tm)))"
    unfolding fsts by (rule keys_rangeMap(2) [OF assms(1) d])
  show "map_of (map (\<lambda>c. (Path c, c)) (map snd (rangeMap env tm))) = map_of tm"
    unfolding eq using keys_rangeMap(2) [OF assms(1) d] d s
    by (simp add: map_of_inject_set)
  show "set (map snd (rangeMap env tm)) = snd ` set tm"
    using s by simp
qed

subsection \<open>The order of the entries\<close>

lemma Less_sortKey: "Less env a b = (sortKey env a < sortKey env b)"
  by (auto simp: Less_def sortKey_def Let_def less_prod_def')

lemma sorted_wrt_Less:
  "sorted_wrt (\<lambda>a b. \<not> Less env b a) sums = sorted (map (sortKey env) sums)"
  by (simp add: Less_sortKey sorted_map not_less)

lemma mset_insertBack: "mset (insertBack lt x ys) = add_mset x (mset ys)"
  by (induction ys) simp_all

lemma set_insertBack: "set (insertBack lt x ys) = insert x (set ys)"
  by (induction ys) auto

lemma mset_insertion_fold:
  "mset (foldl (\<lambda>sorted_part x. insertBack lt x sorted_part) acc xs) = mset acc + mset xs"
  by (induction xs arbitrary: acc) (simp_all add: mset_insertBack)

lemma mset_insertionSort: "mset (insertionSort lt xs) = mset xs"
  by (simp add: insertionSort_def mset_insertion_fold)

lemma insertBack_descending:
  fixes f :: "'a \<Rightarrow> 'k::linorder"
  assumes "\<And>a b. lt a b = (f a < f b)"
  shows "sorted_wrt (\<lambda>a b. f b \<le> f a) ys \<Longrightarrow> sorted_wrt (\<lambda>a b. f b \<le> f a) (insertBack lt x ys)"
proof (induction ys)
  case Nil
  show ?case by simp
next
  case (Cons y ys)
  show ?case
  proof (cases "f x < f y")
    case True
    with Cons show ?thesis
      by (auto simp: assms set_insertBack)
  next
    case False
    with Cons.prems show ?thesis
      by (auto simp: assms)
  qed
qed

lemma insertion_fold_descending:
  fixes f :: "'a \<Rightarrow> 'k::linorder"
  assumes "\<And>a b. lt a b = (f a < f b)"
  shows "sorted_wrt (\<lambda>a b. f b \<le> f a) acc \<Longrightarrow>
    sorted_wrt (\<lambda>a b. f b \<le> f a) (foldl (\<lambda>sorted_part x. insertBack lt x sorted_part) acc xs)"
  by (induction xs arbitrary: acc) (simp_all add: insertBack_descending [OF assms])

lemma sorted_insertionSort:
  fixes f :: "'a \<Rightarrow> 'k::linorder"
  assumes "\<And>a b. lt a b = (f a < f b)"
  shows "sorted (map f (insertionSort lt xs))"
proof -
  have "sorted_wrt (\<lambda>a b. f b \<le> f a) (foldl (\<lambda>sorted_part x. insertBack lt x sorted_part) [] xs)"
    by (rule insertion_fold_descending [OF assms]) simp
  then show ?thesis
    by (simp add: insertionSort_def sorted_map sorted_wrt_rev)
qed

lemma unixWorld_range_ok: "range_ok (unixWorld files texts walks)"
  by (simp add: range_ok_def unixWorld_def)

lemma unixWorld_sort_ok: "sort_ok (unixWorld files texts walks)"
proof -
  let ?env = "unixWorld files texts walks"
  have s: "sort_Sort ?env = insertionSort" by (simp add: unixWorld_def)
  have "sorted (map (sortKey ?env) (insertionSort (Less ?env) sums))" for sums
    by (rule sorted_insertionSort) (rule Less_sortKey)
  then show ?thesis
    by (simp add: sort_ok_def s mset_insertionSort sorted_wrt_Less)
qed

subsection \<open>Writing a manifest\<close>

lemma writeLoop_extends:
  "writeLoop env dir sums out0 = Inr res \<Longrightarrow> \<exists>rest. res = out0 @ rest"
proof (induction sums arbitrary: out0)
  case Nil
  then show ?case by simp
next
  case (Cons c sums)
  then obtain r where r: "relPath env dir (Path c) = Inr r"
    and w: "writeLoop env dir sums (out0 @ Hash c @ '' *'' @ r @ [LF]) = Inr res"
    by (auto split: sum.splits)
  from Cons.IH [OF w] show ?case by auto
qed

lemma writeLoop_line:
  "writeLoop env dir sums out0 = Inr res \<Longrightarrow> c \<in> set sums \<Longrightarrow>
   \<exists>pre post r. relPath env dir (Path c) = Inr r \<and> res = pre @ entryLine c r @ [LF] @ post"
proof (induction sums arbitrary: out0)
  case Nil
  then show ?case by simp
next
  case (Cons x sums)
  then obtain r where r: "relPath env dir (Path x) = Inr r"
    and w: "writeLoop env dir sums (out0 @ Hash x @ '' *'' @ r @ [LF]) = Inr res"
    by (auto split: sum.splits)
  show ?case
  proof (cases "c = x")
    case True
    from writeLoop_extends [OF w] obtain rest where "res = (out0 @ Hash x @ '' *'' @ r @ [LF]) @ rest"
      by blast
    then have "res = out0 @ entryLine c r @ [LF] @ rest"
      by (simp add: entryLine_def True)
    with r True show ?thesis by blast
  next
    case False
    with Cons.prems have "c \<in> set sums" by simp
    from Cons.IH [OF w this] show ?thesis .
  qed
qed

lemma writeFile_line:
  assumes "sort_ok env" and "writeFile env sums path = Inr bytes" and "c \<in> set sums"
  shows "\<exists>pre post r. relPath env (Dir path) (Path c) = Inr r
           \<and> bytes = pre @ entryLine c r @ [LF] @ post"
proof -
  from assms(2) have w: "writeLoop env (Dir path) (sort_Sort env (Less env) sums) [] = Inr bytes"
    by (auto simp: writeFile_def Let_def split: sum.splits option.splits)
  from assms(1) have "mset (sort_Sort env (Less env) sums) = mset sums"
    by (simp add: sort_ok_def)
  then have "set (sort_Sort env (Less env) sums) = set sums"
    by (metis set_mset_mset)
  with assms(3) have "c \<in> set (sort_Sort env (Less env) sums)" by simp
  from writeLoop_line [OF w this] show ?thesis .
qed

subsection \<open>The update command\<close>

lemma updateCommand_unfold:
  assumes "ctx_Args ctx = source # target # rest"
    and "Walk (filepath_Walk env source) (updateWalkFn env target (Base target)) []
           = (None, sourceMap)"
    and "readFileToMap env target = Inr targetMap"
  shows "updateCommand env ctx =
     (case reconcile env (ctx_Bool ctx ''delete'') sourceMap targetMap of
        Inl err \<Rightarrow>
          \<lparr>Printed = [Header ''Updating'' target, FatalError err], ExitCode = 1, Written = None\<rparr>
      | Inr (tm, hashed) \<Rightarrow> updateFinish env target (map snd (rangeMap env tm)))"
  using assms
  by (simp add: updateCommand_def updateFinish_def Let_def split: sum.splits prod.splits)

lemma updateWorld_ok: "range_ok updateWorld" "sort_ok updateWorld"
  by (simp_all add: updateWorld_def unixWorld_range_ok unixWorld_sort_ok)

lemma updateArgs_Args: "ctx_Args (updateArgs deleteFlag) = ''/d'' # ''/d/m.md5'' # []"
  by (simp add: updateArgs_def)

lemma updateWorld_facts:
  "Walk (filepath_Walk updateWorld ''/d'') (updateWalkFn updateWorld ''/d/m.md5'' (Base ''/d/m.md5'')) []
     = (None, [(''/d/a.txt'', True), (''/d/new.txt'', True)])"
  "readFileToMap updateWorld ''/d/m.md5''
     = Inr [(''/d/a.txt'', \<lparr>Hash = ''9dd4e461268c8034f5c8564e155c67a6'', Path = ''/d/a.txt''\<rparr>),
            (''/d/old.txt'', \<lparr>Hash = ''d41d8cd98f00b204e9800998ecf8427e'', Path = ''/d/old.txt''\<rparr>)]"
  by code_simp+

text \<open>
  C4. After the scan and the reading of the target manifest, the update command does what
  the specification says: when every hash it needs can be computed, it hands to
  \<^verbatim>\<open>writeFile\<close> a slice with one entry a path, holding exactly the entries of the
  specification (with the delete flag the target entries whose path is not a source path
  are gone, without it none is; every source path that was not a key has a new entry with
  its hash), and the command ends as \<^verbatim>\<open>writeFile\<close> on that slice ends. When a hash it
  needs cannot be computed, it exits with status 1 and writes nothing.
\<close>

theorem updateCommand_computes:
  assumes "range_ok env"
    and "ctx_Args ctx = source # target # rest"
    and "Walk (filepath_Walk env source) (updateWalkFn env target (Base target)) []
           = (None, sourceMap)"
    and "readFileToMap env target = Inr targetMap"
  shows "if list_all (hashable env)
              (filter (\<lambda>p. keptSpec (ctx_Bool ctx ''delete'') (set (map fst sourceMap))
                             (map_of targetMap) p = None)
                 (map fst sourceMap))
         then \<exists>targetSlice.
                distinct (map Path targetSlice)
                \<and> map_of (map (\<lambda>c. (Path c, c)) targetSlice)
                    = updateSpec env (ctx_Bool ctx ''delete'') (set (map fst sourceMap))
                        (map_of targetMap)
                \<and> updateCommand env ctx = updateFinish env target targetSlice
         else ExitCode (updateCommand env ctx) = 1 \<and> Written (updateCommand env ctx) = None"
proof -
  let ?del = "ctx_Bool ctx ''delete''"
  have dsm: "distinct (map fst sourceMap)"
    using Walk_update_distinct [OF assms(3)] by simp
  have ktm: "keyedByPath targetMap"
    by (rule readFileToMap_keyed [OF assms(4)])
  note spec = reconcile_spec [OF assms(1) dsm ktm, of ?del]
  note unf = updateCommand_unfold [OF assms(2-4)]
  show ?thesis
  proof (cases "list_all (hashable env)
              (filter (\<lambda>p. keptSpec ?del (set (map fst sourceMap)) (map_of targetMap) p = None)
                 (map fst sourceMap))")
    case True
    with spec obtain tm hashed where r: "reconcile env ?del sourceMap targetMap = Inr (tm, hashed)"
      and k: "keyedByPath tm"
      and m: "map_of tm = updateSpec env ?del (set (map fst sourceMap)) (map_of targetMap)"
      by auto
    from unf r have "updateCommand env ctx = updateFinish env target (map snd (rangeMap env tm))"
      by simp
    moreover have "distinct (map Path (map snd (rangeMap env tm)))"
      by (rule slice_of_map(1) [OF assms(1) k])
    moreover have "map_of (map (\<lambda>c. (Path c, c)) (map snd (rangeMap env tm)))
        = updateSpec env ?del (set (map fst sourceMap)) (map_of targetMap)"
      using slice_of_map(2) [OF assms(1) k] m by simp
    ultimately have "\<exists>targetSlice.
                distinct (map Path targetSlice)
                \<and> map_of (map (\<lambda>c. (Path c, c)) targetSlice)
                    = updateSpec env ?del (set (map fst sourceMap)) (map_of targetMap)
                \<and> updateCommand env ctx = updateFinish env target targetSlice"
      by blast
    with True show ?thesis by simp
  next
    case False
    with spec obtain err where "reconcile env ?del sourceMap targetMap = Inl err"
      by auto
    with unf False show ?thesis by simp
  qed
qed

theorem updateCommand_computes_witness:
  "Written (updateCommand updateWorld (updateArgs True))
     = Some (''/d/m.md5'',
         ''9dd4e461268c8034f5c8564e155c67a6 *a.txt'' @ [LF]
         @ ''fbade9e36a3f36d3d676c1b808451dd7 *new.txt'' @ [LF])
   \<and> (\<exists>targetSlice.
         distinct (map Path targetSlice)
         \<and> map_of (map (\<lambda>c. (Path c, c)) targetSlice)
             = updateSpec updateWorld True
                 (set (map fst [(''/d/a.txt'', True), (''/d/new.txt'', True)]))
                 (map_of
                    [(''/d/a.txt'', \<lparr>Hash = ''9dd4e461268c8034f5c8564e155c67a6'', Path = ''/d/a.txt''\<rparr>),
                     (''/d/old.txt'', \<lparr>Hash = ''d41d8cd98f00b204e9800998ecf8427e'', Path = ''/d/old.txt''\<rparr>)])
         \<and> updateCommand updateWorld (updateArgs True)
             = updateFinish updateWorld ''/d/m.md5'' targetSlice)"
proof -
  have flag: "ctx_Bool (updateArgs True) ''delete'' = True"
    by (simp add: updateArgs_def)
  have cond: "list_all (hashable updateWorld)
        (filter (\<lambda>p. keptSpec True (set (map fst [(''/d/a.txt'', True), (''/d/new.txt'', True)]))
               (map_of
                  [(''/d/a.txt'', \<lparr>Hash = ''9dd4e461268c8034f5c8564e155c67a6'', Path = ''/d/a.txt''\<rparr>),
                   (''/d/old.txt'', \<lparr>Hash = ''d41d8cd98f00b204e9800998ecf8427e'', Path = ''/d/old.txt''\<rparr>)])
               p = None)
           (map fst [(''/d/a.txt'', True), (''/d/new.txt'', True)])) = True"
    by code_simp
  have written: "Written (updateCommand updateWorld (updateArgs True))
     = Some (''/d/m.md5'',
         ''9dd4e461268c8034f5c8564e155c67a6 *a.txt'' @ [LF]
         @ ''fbade9e36a3f36d3d676c1b808451dd7 *new.txt'' @ [LF])"
    by code_simp
  note computes =
    updateCommand_computes [OF updateWorld_ok(1) updateArgs_Args [of True] updateWorld_facts,
      unfolded flag cond if_True]
  from written computes show ?thesis by (rule conjI)
qed

text \<open>
  C3. A path that is both a source path and a key of the loaded target set keeps its
  entry: the manifest written holds the line with the recorded hash for it, and the path
  is not among those handed to \<^verbatim>\<open>generateMd5\<close>, whatever the file now contains. The
  paths hashed are exactly the source paths that are not keys of the target set.
\<close>

theorem update_keeps_recorded_hash:
  assumes "range_ok env" and "sort_ok env"
    and "ctx_Args ctx = source # target # rest"
    and "Walk (filepath_Walk env source) (updateWalkFn env target (Base target)) []
           = (None, sourceMap)"
    and "readFileToMap env target = Inr targetMap"
    and "map_of sourceMap p = Some b"
    and "map_of targetMap p = Some c"
    and "Written (updateCommand env ctx) = Some (file, bytes)"
  shows "\<exists>pre post r tm hashed.
           relPath env (Dir target) p = Inr r
           \<and> bytes = pre @ entryLine c r @ [LF] @ post
           \<and> reconcile env (ctx_Bool ctx ''delete'') sourceMap targetMap = Inr (tm, hashed)
           \<and> map_of tm p = Some c
           \<and> p \<notin> set hashed
           \<and> set hashed = {q \<in> set (map fst sourceMap). map_of targetMap q = None}"
proof -
  let ?del = "ctx_Bool ctx ''delete''"
  let ?S = "set (map fst sourceMap)"
  have dsm: "distinct (map fst sourceMap)"
    using Walk_update_distinct [OF assms(4)] by simp
  have ktm: "keyedByPath targetMap"
    by (rule readFileToMap_keyed [OF assms(5)])
  note unf = updateCommand_unfold [OF assms(3-5)]
  from unf assms(8) obtain tm hashed where
    r: "reconcile env ?del sourceMap targetMap = Inr (tm, hashed)"
    and fin: "Written (updateFinish env target (map snd (rangeMap env tm))) = Some (file, bytes)"
    by (auto split: sum.splits)
  then have w: "writeFile env (map snd (rangeMap env tm)) target = Inr bytes"
    by (auto simp: updateFinish_def split: sum.splits)
  from reconcile_spec [OF assms(1) dsm ktm, of ?del] r have
    k: "keyedByPath tm"
    and m: "map_of tm = updateSpec env ?del ?S (map_of targetMap)"
    and h: "set hashed = {q \<in> ?S. keptSpec ?del ?S (map_of targetMap) q = None}"
    by (auto split: if_splits)
  have kept: "keptSpec ?del ?S (map_of targetMap) q = map_of targetMap q" if "q \<in> ?S" for q
    using that by (simp add: keptSpec_def restrict_map_def)
  from assms(6) have pS: "p \<in> ?S"
    by (metis map_of_eq_None_iff option.distinct(1) set_map)
  from m kept [OF pS] assms(7) have mp: "map_of tm p = Some c"
    by (simp add: updateSpec_def)
  have "(q \<in> set hashed) = (q \<in> ?S \<and> map_of targetMap q = None)" for q
    using kept [of q] by (cases "q \<in> ?S") (simp_all add: h)
  then have h': "set hashed = {q \<in> ?S. map_of targetMap q = None}"
    by blast
  with assms(7) have np: "p \<notin> set hashed" by simp
  from mp have "(p, c) \<in> set tm" by (rule map_of_SomeD)
  then have "c \<in> set (map snd (rangeMap env tm))"
    using slice_of_map(3) [OF assms(1) k] by force
  from writeFile_line [OF assms(2) w this] obtain pre post r where
    "relPath env (Dir target) (Path c) = Inr r" "bytes = pre @ entryLine c r @ [LF] @ post"
    by blast
  moreover from ktm assms(7) have "Path c = p"
    by (auto simp: keyedByPath_def list_all_iff dest!: map_of_SomeD)
  ultimately show ?thesis using r mp np h' by auto
qed

theorem update_keeps_recorded_hash_witness:
  "generateMd5 updateWorld ''/d/a.txt'' = Inr ''415290769594460e2e485922904f345d''
   \<and> Written (updateCommand updateWorld (updateArgs False))
     = Some (''/d/m.md5'',
         ''9dd4e461268c8034f5c8564e155c67a6 *a.txt'' @ [LF]
         @ ''fbade9e36a3f36d3d676c1b808451dd7 *new.txt'' @ [LF]
         @ ''d41d8cd98f00b204e9800998ecf8427e *old.txt'' @ [LF])
   \<and> (\<exists>pre post r tm hashed.
         relPath updateWorld (Dir ''/d/m.md5'') ''/d/a.txt'' = Inr r
         \<and> ''9dd4e461268c8034f5c8564e155c67a6 *a.txt'' @ [LF]
             @ ''fbade9e36a3f36d3d676c1b808451dd7 *new.txt'' @ [LF]
             @ ''d41d8cd98f00b204e9800998ecf8427e *old.txt'' @ [LF]
           = pre @ entryLine \<lparr>Hash = ''9dd4e461268c8034f5c8564e155c67a6'', Path = ''/d/a.txt''\<rparr> r
               @ [LF] @ post
         \<and> reconcile updateWorld (ctx_Bool (updateArgs False) ''delete'')
               [(''/d/a.txt'', True), (''/d/new.txt'', True)]
               [(''/d/a.txt'', \<lparr>Hash = ''9dd4e461268c8034f5c8564e155c67a6'', Path = ''/d/a.txt''\<rparr>),
                (''/d/old.txt'', \<lparr>Hash = ''d41d8cd98f00b204e9800998ecf8427e'', Path = ''/d/old.txt''\<rparr>)]
             = Inr (tm, hashed)
         \<and> map_of tm ''/d/a.txt''
             = Some \<lparr>Hash = ''9dd4e461268c8034f5c8564e155c67a6'', Path = ''/d/a.txt''\<rparr>
         \<and> ''/d/a.txt'' \<notin> set hashed
         \<and> set hashed
             = {q \<in> set (map fst [(''/d/a.txt'', True), (''/d/new.txt'', True)]).
                  map_of
                    [(''/d/a.txt'', \<lparr>Hash = ''9dd4e461268c8034f5c8564e155c67a6'', Path = ''/d/a.txt''\<rparr>),
                     (''/d/old.txt'', \<lparr>Hash = ''d41d8cd98f00b204e9800998ecf8427e'', Path = ''/d/old.txt''\<rparr>)]
                    q = None})"
proof -
  have fresh: "generateMd5 updateWorld ''/d/a.txt'' = Inr ''415290769594460e2e485922904f345d''"
    by code_simp
  have src: "map_of [(''/d/a.txt'', True), (''/d/new.txt'', True)] ''/d/a.txt'' = Some True"
    by simp
  have tgt: "map_of
       [(''/d/a.txt'', \<lparr>Hash = ''9dd4e461268c8034f5c8564e155c67a6'', Path = ''/d/a.txt''\<rparr>),
        (''/d/old.txt'', \<lparr>Hash = ''d41d8cd98f00b204e9800998ecf8427e'', Path = ''/d/old.txt''\<rparr>)]
       ''/d/a.txt''
     = Some \<lparr>Hash = ''9dd4e461268c8034f5c8564e155c67a6'', Path = ''/d/a.txt''\<rparr>"
    by simp
  have written: "Written (updateCommand updateWorld (updateArgs False))
     = Some (''/d/m.md5'',
         ''9dd4e461268c8034f5c8564e155c67a6 *a.txt'' @ [LF]
         @ ''fbade9e36a3f36d3d676c1b808451dd7 *new.txt'' @ [LF]
         @ ''d41d8cd98f00b204e9800998ecf8427e *old.txt'' @ [LF])"
    by code_simp
  note keeps =
    update_keeps_recorded_hash [OF updateWorld_ok updateArgs_Args [of False] updateWorld_facts
      src tgt written]
  from fresh written keeps show ?thesis by (intro conjI)
qed

lemma writeLoop_eq:
  "writeLoop env dir sums out0 = Inr res \<Longrightarrow>
   res = out0 @ serialize env dir sums
   \<and> list_all (\<lambda>c. relPath env dir (Path c) = Inr (writtenPath env dir c)) sums"
proof (induction sums arbitrary: out0)
  case Nil
  then show ?case by (simp add: serialize_def)
next
  case (Cons c sums)
  then obtain r where r: "relPath env dir (Path c) = Inr r"
    and w: "writeLoop env dir sums (out0 @ Hash c @ '' *'' @ r @ [LF]) = Inr res"
    by (auto split: sum.splits)
  from Cons.IH [OF w] r show ?case
    by (simp add: serialize_def writtenPath_def entryLine_def)
qed

lemma writeFile_eq:
  "writeFile env sums path = Inr bytes \<Longrightarrow>
   bytes = serialize env (Dir path) (sort_Sort env (Less env) sums)
   \<and> list_all (\<lambda>c. relPath env (Dir path) (Path c) = Inr (writtenPath env (Dir path) c))
        (sort_Sort env (Less env) sums)"
  using writeLoop_eq [of env "Dir path" "sort_Sort env (Less env) sums" "[]" bytes]
  by (auto simp: writeFile_def Let_def split: sum.splits option.splits)

subsection \<open>Sorting is deterministic when no two keys are equal\<close>

lemma sorted_unique:
  assumes "sort_ok env" and "mset sums1 = mset sums2"
    and "distinct (map (\<lambda>c. strings_ToLower env (Path c)) sums1)"
  shows "sort_Sort env (Less env) sums1 = sort_Sort env (Less env) sums2"
proof -
  let ?xs = "sort_Sort env (Less env) sums1" and ?ys = "sort_Sort env (Less env) sums2"
  let ?lower = "\<lambda>c. strings_ToLower env (Path c)"
  from assms(1) have mx: "mset ?xs = mset sums1" and my: "mset ?ys = mset sums2"
    and sx: "sorted (map (sortKey env) ?xs)" and sy: "sorted (map (sortKey env) ?ys)"
    by (simp_all add: sort_ok_def sorted_wrt_Less)
  have low: "?lower = snd \<circ> sortKey env"
    by (simp add: sortKey_def fun_eq_iff)
  from assms(3) have "distinct (map (sortKey env) sums1)"
    unfolding low by (metis distinct_map map_map distinct_map)
  moreover have "mset (map (sortKey env) ?xs) = mset (map (sortKey env) sums1)"
    and "mset (map (sortKey env) ?ys) = mset (map (sortKey env) sums1)"
    using mx my assms(2) by simp_all
  ultimately have dx: "distinct (map (sortKey env) ?xs)" and dy: "distinct (map (sortKey env) ?ys)"
    by (metis mset_eq_imp_distinct_iff)+
  from mx my assms(2) have set: "set ?xs = set ?ys"
    by (metis set_mset_mset)
  from dx have "inj_on (sortKey env) (set ?xs)"
    by (simp add: distinct_map)
  with set have "inj_on (sortKey env) (set ?xs \<union> set ?ys)" by simp
  from map_sorted_distinct_set_unique [OF this sx dx sy dy set] show ?thesis .
qed

lemma emptyWorld_ok: "range_ok emptyWorld" "sort_ok emptyWorld"
  by (simp_all add: emptyWorld_def unixWorld_range_ok unixWorld_sort_ok)

text \<open>
  C8, as the code has it. When no two entries have paths that are equal once lowercased,
  \<^verbatim>\<open>writeFile\<close> gives the same result for every order of the same entries, whatever
  algorithm \<^verbatim>\<open>sort.Sort\<close> runs.
\<close>

theorem writeFile_order_independent:
  assumes "sort_ok env" and "mset sums1 = mset sums2"
    and "distinct (map (\<lambda>c. strings_ToLower env (Path c)) sums1)"
  shows "writeFile env sums1 path = writeFile env sums2 path"
  by (simp add: writeFile_def sorted_unique [OF assms])

theorem writeFile_order_independent_witness:
  "writeFile emptyWorld
     [\<lparr>Hash = ''415290769594460e2e485922904f345d'', Path = ''/d/sub/b.txt''\<rparr>,
      \<lparr>Hash = ''fbade9e36a3f36d3d676c1b808451dd7'', Path = ''/d/Z.txt''\<rparr>,
      \<lparr>Hash = ''9dd4e461268c8034f5c8564e155c67a6'', Path = ''/d/a.txt''\<rparr>] ''/d/m.md5''
   = writeFile emptyWorld
     [\<lparr>Hash = ''9dd4e461268c8034f5c8564e155c67a6'', Path = ''/d/a.txt''\<rparr>,
      \<lparr>Hash = ''415290769594460e2e485922904f345d'', Path = ''/d/sub/b.txt''\<rparr>,
      \<lparr>Hash = ''fbade9e36a3f36d3d676c1b808451dd7'', Path = ''/d/Z.txt''\<rparr>] ''/d/m.md5''
   \<and> writeFile emptyWorld
     [\<lparr>Hash = ''9dd4e461268c8034f5c8564e155c67a6'', Path = ''/d/a.txt''\<rparr>,
      \<lparr>Hash = ''415290769594460e2e485922904f345d'', Path = ''/d/sub/b.txt''\<rparr>,
      \<lparr>Hash = ''fbade9e36a3f36d3d676c1b808451dd7'', Path = ''/d/Z.txt''\<rparr>] ''/d/m.md5''
   = Inr (''9dd4e461268c8034f5c8564e155c67a6 *a.txt'' @ [LF]
          @ ''fbade9e36a3f36d3d676c1b808451dd7 *Z.txt'' @ [LF]
          @ ''415290769594460e2e485922904f345d *sub/b.txt'' @ [LF])"
proof -
  let ?a = "\<lparr>Hash = ''9dd4e461268c8034f5c8564e155c67a6'', Path = ''/d/a.txt''\<rparr>"
  let ?b = "\<lparr>Hash = ''415290769594460e2e485922904f345d'', Path = ''/d/sub/b.txt''\<rparr>"
  let ?z = "\<lparr>Hash = ''fbade9e36a3f36d3d676c1b808451dd7'', Path = ''/d/Z.txt''\<rparr>"
  have perm: "mset [?b, ?z, ?a] = mset [?a, ?b, ?z]"
    by simp
  have keys: "distinct (map (\<lambda>c. strings_ToLower emptyWorld (Path c)) [?b, ?z, ?a])"
    by code_simp
  have out: "writeFile emptyWorld [?a, ?b, ?z] ''/d/m.md5''
     = Inr (''9dd4e461268c8034f5c8564e155c67a6 *a.txt'' @ [LF]
          @ ''fbade9e36a3f36d3d676c1b808451dd7 *Z.txt'' @ [LF]
          @ ''415290769594460e2e485922904f345d *sub/b.txt'' @ [LF])"
    by code_simp
  from writeFile_order_independent [OF emptyWorld_ok(2) perm keys, of "''/d/m.md5''"] out
  show ?thesis by (rule conjI)
qed

text \<open>
  The claim as stated covers every set. \<^verbatim>\<open>Less\<close> compares lowercased strings only, so
  it orders neither of \<^verbatim>\<open>/d/A.txt\<close> and \<^verbatim>\<open>/d/a.txt\<close> before the other, and
  \<^verbatim>\<open>sort.Sort\<close> (an insertion sort on a slice this short) leaves them as they came: the
  two orders of the same set give different bytes.
\<close>

theorem writeFile_depends_on_order_of_case_variants:
  "writeFile emptyWorld
     [\<lparr>Hash = ''9dd4e461268c8034f5c8564e155c67a6'', Path = ''/d/A.txt''\<rparr>,
      \<lparr>Hash = ''415290769594460e2e485922904f345d'', Path = ''/d/a.txt''\<rparr>] ''/d/m.md5''
     = Inr (''9dd4e461268c8034f5c8564e155c67a6 *A.txt'' @ [LF]
            @ ''415290769594460e2e485922904f345d *a.txt'' @ [LF])
   \<and> writeFile emptyWorld
     [\<lparr>Hash = ''415290769594460e2e485922904f345d'', Path = ''/d/a.txt''\<rparr>,
      \<lparr>Hash = ''9dd4e461268c8034f5c8564e155c67a6'', Path = ''/d/A.txt''\<rparr>] ''/d/m.md5''
     = Inr (''415290769594460e2e485922904f345d *a.txt'' @ [LF]
            @ ''9dd4e461268c8034f5c8564e155c67a6 *A.txt'' @ [LF])
   \<and> writeFile emptyWorld
     [\<lparr>Hash = ''9dd4e461268c8034f5c8564e155c67a6'', Path = ''/d/A.txt''\<rparr>,
      \<lparr>Hash = ''415290769594460e2e485922904f345d'', Path = ''/d/a.txt''\<rparr>] ''/d/m.md5''
     \<noteq> writeFile emptyWorld
     [\<lparr>Hash = ''415290769594460e2e485922904f345d'', Path = ''/d/a.txt''\<rparr>,
      \<lparr>Hash = ''9dd4e461268c8034f5c8564e155c67a6'', Path = ''/d/A.txt''\<rparr>] ''/d/m.md5''"
  by code_simp

subsection \<open>Reading back what was written\<close>

lemma stripCR_entry:
  "stripCR (h @ '' *'' @ r) = h @ '' *'' @ stripCR r"
  by (cases "r = []") (simp_all add: stripCR_def butlast_append)

lemma entryLine_no_LF:
  "isHash (Hash c) \<Longrightarrow> LF \<notin> set r \<Longrightarrow> LF \<notin> set (entryLine c r)"
  by (auto simp: entryLine_def isHash_def dest: hex_no_LF)

lemma written_line:
  assumes "isHash (Hash c)" and "LF \<notin> set r"
  shows "MatchString (stripCR (entryLine c r))"
    and "take 32 (stripCR (entryLine c r)) = Hash c"
    and "drop 34 (stripCR (entryLine c r)) = stripCR r"
proof -
  from assms(1) have len: "length (Hash c) = 32" and hex: "list_all isHex (Hash c)"
    by (simp_all add: isHash_def)
  from assms(2) have lf: "LF \<notin> set (stripCR r)" by (rule stripCR_no_LF)
  show "MatchString (stripCR (entryLine c r))"
    unfolding entryLine_def stripCR_entry by (rule MatchString_intro [OF len hex lf])
  show "take 32 (stripCR (entryLine c r)) = Hash c"
    unfolding entryLine_def stripCR_entry using len by simp
  show "drop 34 (stripCR (entryLine c r)) = stripCR r"
    unfolding entryLine_def stripCR_entry using len by simp
qed

lemma parse_lines:
  assumes "list_all (\<lambda>c. isHash (Hash c) \<and> LF \<notin> set (wp c)) sums"
  shows "map (\<lambda>line. \<lparr>Hash = take 32 line, Path = resolve dir (firstPiece (drop 34 line))\<rparr>)
           (filter MatchString (map (\<lambda>c. stripCR (entryLine c (wp c))) sums))
     = map (\<lambda>c. \<lparr>Hash = Hash c, Path = resolve dir (firstPiece (stripCR (wp c)))\<rparr>) sums"
  using assms by (induction sums) (simp_all add: written_line)

lemma parse_written:
  assumes "list_all (\<lambda>c. isHash (Hash c) \<and> LF \<notin> set (wp c)) sums"
  shows "parseSpec dir (concat (map (\<lambda>c. entryLine c (wp c) @ [LF]) sums))
     = map (\<lambda>c. \<lparr>Hash = Hash c, Path = resolve dir (firstPiece (stripCR (wp c)))\<rparr>) sums"
proof -
  let ?lines = "map (\<lambda>c. entryLine c (wp c)) sums"
  have data_eq: "concat (map (\<lambda>c. entryLine c (wp c) @ [LF]) sums)
      = concat (map (\<lambda>l. l @ [LF]) ?lines)"
    by (simp add: comp_def)
  from assms have lf: "list_all (\<lambda>l. LF \<notin> set l) ?lines"
    by (simp add: list_all_iff entryLine_no_LF)
  then have lf': "list_all (\<lambda>l. LF \<notin> set l) (map stripCR ?lines)"
    by (simp add: list_all_iff stripCR_no_LF)
  have "Replace (concat (map (\<lambda>l. l @ [LF]) ?lines)) [CR, LF] [LF]
      = concat (map (\<lambda>l. l @ [LF]) (map stripCR ?lines))"
    using Replace_lines [OF lf] by (simp add: comp_def)
  then have split: "Split (Replace (concat (map (\<lambda>l. l @ [LF]) ?lines)) [CR, LF] [LF]) [LF]
      = map stripCR ?lines @ [[]]"
    using Split_lines [OF lf'] by simp
  have lines: "map stripCR ?lines = map (\<lambda>c. stripCR (entryLine c (wp c))) sums"
    by (simp add: comp_def)
  show ?thesis
    unfolding data_eq parseSpec_def split lines
    using parse_lines [OF assms, of dir] by (simp add: not_MatchString_Nil)
qed

lemma lastFor_distinct:
  "distinct (map Path sums) \<Longrightarrow> lastFor k sums = map_of (map (\<lambda>c. (Path c, c)) sums) k"
proof (induction sums)
  case Nil
  show ?case by (simp add: lastFor_def)
next
  case (Cons c sums)
  show ?case
  proof (cases "Path c = k")
    case True
    from Cons.prems have "Path c \<notin> Path ` set sums" by simp
    then have "\<forall>x\<in>set sums. Path x \<noteq> Path c" by (metis imageI)
    with True have "filter (\<lambda>c. Path c = k) sums = []"
      by (simp add: filter_empty_conv)
    with True show ?thesis by (simp add: lastFor_def)
  next
    case False
    with Cons show ?thesis by (simp add: lastFor_def)
  qed
qed

lemma list_all_mset: "mset xs = mset ys \<Longrightarrow> list_all P xs = list_all P ys"
  by (metis list_all_iff set_mset_mset)

lemma map_of_mset:
  assumes "mset xs = mset ys" and "distinct (map Path ys)"
  shows "map_of (map (\<lambda>c. (Path c, c)) xs) = map_of (map (\<lambda>c. (Path c, c)) ys)"
    and "distinct (map Path xs)"
proof -
  from assms(1) have "mset (map Path xs) = mset (map Path ys)" by simp
  with assms(2) show d: "distinct (map Path xs)"
    by (metis mset_eq_imp_distinct_iff)
  from assms(1) have "set xs = set ys" by (metis set_mset_mset)
  then have "set (map (\<lambda>c. (Path c, c)) xs) = set (map (\<lambda>c. (Path c, c)) ys)" by simp
  moreover have "distinct (map fst (map (\<lambda>c. (Path c, c)) xs))"
    "distinct (map fst (map (\<lambda>c. (Path c, c)) ys))"
    using d assms(2) by (simp_all add: comp_def)
  ultimately show "map_of (map (\<lambda>c. (Path c, c)) xs) = map_of (map (\<lambda>c. (Path c, c)) ys)"
    by (simp only: map_of_inject_set)
qed

text \<open>
  C7, as the code has it. Take a set of entries with distinct paths and well-formed hashes
  that \<^verbatim>\<open>writeFile\<close> has written to \<open>p\<close>, such that the path written for every entry
  survives the way back. Then reading the file into a map gives exactly the entries of the
  set, each under its path.
\<close>

theorem manifest_roundtrip:
  assumes "sort_ok env"
    and "distinct (map Path S)"
    and "list_all (\<lambda>c. isHash (Hash c)) S"
    and "writeFile env S p = Inr bytes"
    and "list_all (\<lambda>c. survives (Dir p) (Path c) (writtenPath env (Dir p) c)) S"
  shows "\<exists>m. readFileToMap (afterWrite env p bytes) p = Inr m
           \<and> map_of m = map_of (map (\<lambda>c. (Path c, c)) S)"
proof -
  let ?xs = "sort_Sort env (Less env) S"
  let ?wp = "writtenPath env (Dir p)"
  let ?m = "fold (\<lambda>c m. AList.update (Path c) c m) ?xs []"
  from assms(1) have perm: "mset ?xs = mset S" by (simp add: sort_ok_def)
  from assms(3) list_all_mset [OF perm] have hashes: "list_all (\<lambda>c. isHash (Hash c)) ?xs"
    by simp
  from assms(5) list_all_mset [OF perm]
  have surv: "list_all (\<lambda>c. survives (Dir p) (Path c) (?wp c)) ?xs"
    by simp
  from hashes surv have ok: "list_all (\<lambda>c. isHash (Hash c) \<and> LF \<notin> set (?wp c)) ?xs"
    by (simp add: list_all_iff survives_def)
  from writeFile_eq [OF assms(4)] have bytes: "bytes = serialize env (Dir p) ?xs"
    by simp
  have "map (\<lambda>c. \<lparr>Hash = Hash c, Path = resolve (Dir p) (firstPiece (stripCR (?wp c)))\<rparr>) ?xs
      = map (\<lambda>c. c) ?xs"
    using surv by (intro map_cong) (auto simp: list_all_iff survives_def firstPiece_def)
  with parse_written [OF ok, of "Dir p"] have parsed: "parseSpec (Dir p) bytes = ?xs"
    by (simp add: bytes serialize_def)
  have "readFileToMap (afterWrite env p bytes) p = Inr ?m"
    by (simp add: readFileToMap_eq afterWrite_def parsed)
  moreover have "map_of ?m k = map_of (map (\<lambda>c. (Path c, c)) S) k" for k
    using fold_update_last [of ?xs "[]" k] lastFor_distinct [OF map_of_mset(2) [OF perm assms(2)], of k]
      map_of_mset(1) [OF perm assms(2)]
    by (simp split: option.splits)
  ultimately show ?thesis by blast
qed

theorem manifest_roundtrip_witness:
  "writeFile emptyWorld
     [\<lparr>Hash = ''415290769594460e2e485922904f345d'', Path = ''/d/out/sub/b.txt''\<rparr>,
      \<lparr>Hash = ''FBADE9E36A3F36D3D676C1B808451DD7'', Path = ''/e/c d.txt''\<rparr>,
      \<lparr>Hash = ''9dd4e461268c8034f5c8564e155c67a6'', Path = ''/d/a.txt''\<rparr>] ''/d/out/m.md5''
     = Inr (''9dd4e461268c8034f5c8564e155c67a6 *../a.txt'' @ [LF]
            @ ''415290769594460e2e485922904f345d *sub/b.txt'' @ [LF]
            @ ''FBADE9E36A3F36D3D676C1B808451DD7 *../../e/c d.txt'' @ [LF])
   \<and> (\<exists>m. readFileToMap
              (afterWrite emptyWorld ''/d/out/m.md5''
                 (''9dd4e461268c8034f5c8564e155c67a6 *../a.txt'' @ [LF]
                  @ ''415290769594460e2e485922904f345d *sub/b.txt'' @ [LF]
                  @ ''FBADE9E36A3F36D3D676C1B808451DD7 *../../e/c d.txt'' @ [LF]))
              ''/d/out/m.md5'' = Inr m
          \<and> map_of m
              = map_of (map (\<lambda>c. (Path c, c))
                  [\<lparr>Hash = ''415290769594460e2e485922904f345d'', Path = ''/d/out/sub/b.txt''\<rparr>,
                   \<lparr>Hash = ''FBADE9E36A3F36D3D676C1B808451DD7'', Path = ''/e/c d.txt''\<rparr>,
                   \<lparr>Hash = ''9dd4e461268c8034f5c8564e155c67a6'', Path = ''/d/a.txt''\<rparr>]))"
proof -
  let ?S = "[\<lparr>Hash = ''415290769594460e2e485922904f345d'', Path = ''/d/out/sub/b.txt''\<rparr>,
      \<lparr>Hash = ''FBADE9E36A3F36D3D676C1B808451DD7'', Path = ''/e/c d.txt''\<rparr>,
      \<lparr>Hash = ''9dd4e461268c8034f5c8564e155c67a6'', Path = ''/d/a.txt''\<rparr>]"
  have paths: "distinct (map Path ?S)"
    by simp
  have hashes: "list_all (\<lambda>c. isHash (Hash c)) ?S"
    by code_simp
  have written: "writeFile emptyWorld ?S ''/d/out/m.md5''
     = Inr (''9dd4e461268c8034f5c8564e155c67a6 *../a.txt'' @ [LF]
            @ ''415290769594460e2e485922904f345d *sub/b.txt'' @ [LF]
            @ ''FBADE9E36A3F36D3D676C1B808451DD7 *../../e/c d.txt'' @ [LF])"
    by code_simp
  have surv: "list_all (\<lambda>c. survives (Dir ''/d/out/m.md5'') (Path c)
                (writtenPath emptyWorld (Dir ''/d/out/m.md5'') c)) ?S"
    by code_simp
  from written manifest_roundtrip [OF emptyWorld_ok(2) paths hashes written surv]
  show ?thesis by (rule conjI)
qed

text \<open>
  The claim as stated covers every set with unique paths. The format has no escaping: the
  entry for a file named \<^verbatim>\<open>a\<close>, line feed, \<^verbatim>\<open>b\<close> is written over two lines, and reading
  them back gives an entry for the path \<^verbatim>\<open>/d/a\<close> instead.
\<close>

theorem roundtrip_loses_path_with_line_feed:
  "writeFile emptyWorld
     [\<lparr>Hash = ''9dd4e461268c8034f5c8564e155c67a6'', Path = ''/d/a'' @ [LF] @ ''b''\<rparr>] ''/d/m.md5''
     = Inr (''9dd4e461268c8034f5c8564e155c67a6 *a'' @ [LF] @ ''b'' @ [LF])
   \<and> readFileToMap
       (afterWrite emptyWorld ''/d/m.md5''
          (''9dd4e461268c8034f5c8564e155c67a6 *a'' @ [LF] @ ''b'' @ [LF]))
       ''/d/m.md5''
     = Inr [(''/d/a'', \<lparr>Hash = ''9dd4e461268c8034f5c8564e155c67a6'', Path = ''/d/a''\<rparr>)]"
  by code_simp

subsection \<open>Clean absolute paths find their way back\<close>

text \<open>
  When the directory of the manifest and the path of an entry are clean absolute paths,
  \<^verbatim>\<open>filepath.Rel\<close> succeeds, and joining its result to the directory gives the path of
  the entry again: the last condition of \<open>survives\<close> holds for them.
\<close>

lemma normal_plain: "list_all normalElem es \<Longrightarrow> list_all plainElem es"
  by (simp add: list_all_iff normalElem_def plainElem_def)

lemma Join_strings_Cons:
  "es \<noteq> [] \<Longrightarrow> Join_strings (e # es) sep = e @ sep @ Join_strings es sep"
  by (cases es) simp_all

lemma Join_strings_append:
  "xs \<noteq> [] \<Longrightarrow> ys \<noteq> [] \<Longrightarrow>
   Join_strings (xs @ ys) sep = Join_strings xs sep @ sep @ Join_strings ys sep"
proof (induction xs sep rule: Join_strings.induct)
  case (1 sep)
  then show ?case by simp
next
  case (2 x sep)
  then show ?case by (simp add: Join_strings_Cons)
next
  case (3 x y ys' sep)
  then show ?case by simp
qed

lemma Join_strings_Nil_iff:
  "list_all normalElem es \<Longrightarrow> (Join_strings es ''/'' = []) = (es = [])"
  by (induction es "''/''" rule: Join_strings.induct) (auto simp: normalElem_def)

lemma Split_Join_strings:
  "list_all plainElem es \<Longrightarrow> es \<noteq> [] \<Longrightarrow> Split (Join_strings es ''/'') ''/'' = es"
proof (induction es "''/''" rule: Join_strings.induct)
  case 1
  then show ?case by simp
next
  case (2 x)
  then have "Index x ''/'' = None"
    by (intro Index_None) (simp_all add: plainElem_def)
  then show ?case by (simp add: Split_none)
next
  case (3 x y ys)
  then have "Split (x @ ''/'' @ Join_strings (y # ys) ''/'') ''/'' = x # Split (Join_strings (y # ys) ''/'') ''/''"
    by (intro Split_append) (simp_all add: plainElem_def)
  with 3 show ?case by simp
qed

lemma Split_absPath:
  assumes "list_all plainElem es"
  shows "Split (absPath es) ''/'' = [] # (if es = [] then [[]] else es)"
proof -
  have "Split ([] @ ''/'' @ Join_strings es ''/'') ''/'' = [] # Split (Join_strings es ''/'') ''/''"
    by (intro Split_append) simp_all
  then show ?thesis
    using Split_Join_strings [OF assms] by (simp add: absPath_def Split_Nil)
qed

lemma cleanElems_skip: "cleanElems rooted out ([] # es) = cleanElems rooted out es"
  by simp

lemma cleanElems_normal:
  "list_all normalElem es \<Longrightarrow> cleanElems rooted out (es @ rest) = cleanElems rooted (rev es @ out) rest"
  by (induction es arbitrary: out) (simp_all add: normalElem_def)

lemma cleanElems_dotdots:
  "list_all normalElem ds \<Longrightarrow>
   cleanElems rooted (rev ds @ out) (replicate (length ds) ''..'' @ rest) = cleanElems rooted out rest"
proof (induction ds rule: rev_induct)
  case Nil
  show ?case by simp
next
  case (snoc d ds)
  then have "d \<noteq> ''..''" by (simp add: normalElem_def)
  with snoc show ?case by simp
qed

lemma Clean_absPath:
  assumes "list_all plainElem es"
  shows "Clean (absPath es) = absPath (cleanElems True [] es)"
proof -
  have "cleanElems True [] (Split (absPath es) ''/'') = cleanElems True [] es"
    unfolding Split_absPath [OF assms] by simp
  then show ?thesis
    by (simp add: Clean_def Let_def absPath_def)
qed

lemma Clean_absPath_normal:
  assumes "list_all normalElem es"
  shows "Clean (absPath es) = absPath es"
  using Clean_absPath [OF normal_plain [OF assms]] cleanElems_normal [OF assms, of True "[]" "[]"]
  by simp

lemma takeWhile_Join_strings:
  assumes "normalElem d"
  shows "takeWhile (\<lambda>c. c \<noteq> Separator) (Join_strings (d # ds) ''/'') = d"
    and "drop (Suc (length d)) (Join_strings (d # ds) ''/'') = Join_strings ds ''/''"
proof -
  from assms have p: "\<forall>c \<in> set d. c \<noteq> Separator" by (auto simp: normalElem_def)
  show "takeWhile (\<lambda>c. c \<noteq> Separator) (Join_strings (d # ds) ''/'') = d"
    using p by (cases ds) (simp_all add: takeWhile_tail)
  show "drop (Suc (length d)) (Join_strings (d # ds) ''/'') = Join_strings ds ''/''"
    by (cases ds) simp_all
qed

lemma relLoop_Join_strings:
  assumes "list_all normalElem ds" and "list_all normalElem ps"
  shows "relLoop (Join_strings ds ''/'') (Join_strings ps ''/'') =
     (case common ds ps of (ds', ps') \<Rightarrow>
        (if ds' \<noteq> [] \<and> ps' \<noteq> [] then hd ds' else [],
         Join_strings ds' ''/'', Join_strings ps' ''/''))"
  using assms
proof (induction ds ps rule: common.induct)
  case (1 d ds p ps)
  from 1(2,3) have nd: "normalElem d" and np: "normalElem p"
    and nds: "list_all normalElem ds" and nps: "list_all normalElem ps"
    by simp_all
  have ne: "Join_strings (d # ds) ''/'' \<noteq> [] \<and> Join_strings (p # ps) ''/'' \<noteq> []"
    using Join_strings_Nil_iff [OF 1(2)] Join_strings_Nil_iff [OF 1(3)] by simp
  show ?case
  proof (cases "d = p")
    case True
    with 1(1) [OF True nds nps] ne show ?thesis
      by (subst relLoop.simps)
         (simp add: Let_def takeWhile_Join_strings [OF nd] takeWhile_Join_strings [OF np])
  next
    case False
    with ne show ?thesis
      by (subst relLoop.simps)
         (simp add: Let_def takeWhile_Join_strings [OF nd] takeWhile_Join_strings [OF np])
  qed
qed ((subst relLoop.simps, simp)+)

lemma common_split:
  "common ds ps = (ds', ps') \<Longrightarrow> \<exists>c. ds = c @ ds' \<and> ps = c @ ps'"
proof (induction ds ps rule: common.induct)
  case (1 d ds p ps)
  show ?case
  proof (cases "d = p")
    case True
    with 1 obtain c where "ds = c @ ds'" "ps = c @ ps'" by auto
    with True have "d # ds = (d # c) @ ds'" "p # ps = (d # c) @ ps'" by simp_all
    then show ?thesis by blast
  next
    case False
    with 1(2) show ?thesis by auto
  qed
qed auto

lemma common_Nil: "common ds ps = ([], []) \<Longrightarrow> ds = ps"
  by (drule common_split) auto

lemma Join_strings_inject:
  assumes "list_all normalElem ds" and "list_all normalElem ps"
    and "Join_strings ds ''/'' = Join_strings ps ''/''"
  shows "ds = ps"
proof (cases "ds = [] \<or> ps = []")
  case True
  then show ?thesis
    by (metis Join_strings_Nil_iff assms)
next
  case False
  then have "ds \<noteq> []" "ps \<noteq> []" by simp_all
  then have "Split (Join_strings ds ''/'') ''/'' = ds" "Split (Join_strings ps ''/'') ''/'' = ps"
    using Split_Join_strings [OF normal_plain [OF assms(1)]]
      Split_Join_strings [OF normal_plain [OF assms(2)]] by blast+
  with assms(3) show ?thesis by metis
qed

lemma dotdots: "''..'' @ concat (replicate n ''/..'') = Join_strings (replicate (Suc n) ''..'') ''/''"
  by (induction n) simp_all

lemma count_separators:
  "list_all normalElem es \<Longrightarrow> es \<noteq> [] \<Longrightarrow>
   count_list (Join_strings es ''/'') Separator = length es - 1"
proof (induction es "''/''" rule: Join_strings.induct)
  case 1
  then show ?case by simp
next
  case (2 x)
  then show ?case by (simp add: normalElem_def count_list_0_iff)
next
  case (3 x y ys)
  then have "count_list x Separator = 0" by (simp add: normalElem_def count_list_0_iff)
  with 3 show ?case by simp
qed

lemma Rel_absPath:
  assumes "list_all normalElem ds" and "list_all normalElem ps"
  shows "Rel (absPath ds) (absPath ps) =
     Inr (if ds = ps then ''.''
          else case common ds ps of (ds', ps') \<Rightarrow>
            Join_strings (replicate (length ds') ''..'' @ ps') ''/'')"
proof (cases "ds = ps")
  case True
  then show ?thesis by (simp add: Rel_def)
next
  case False
  obtain ds' ps' where c: "common ds ps = (ds', ps')" by (cases "common ds ps")
  from common_split [OF c] obtain pre where ds: "ds = pre @ ds'" and ps: "ps = pre @ ps'"
    by blast
  from assms ds ps have nds': "list_all normalElem ds'" and nps': "list_all normalElem ps'"
    by simp_all
  from False ds ps have ne: "ds' \<noteq> [] \<or> ps' \<noteq> []" by auto
  have neq: "absPath ps \<noteq> absPath ds"
    using Join_strings_inject [OF assms] False by (auto simp: absPath_def)
  have first: "relLoop (absPath ds) (absPath ps)
      = relLoop (Join_strings ds ''/'') (Join_strings ps ''/'')"
    by (subst relLoop.simps) (simp add: absPath_def)
  have loop: "relLoop (absPath ds) (absPath ps)
      = (if ds' \<noteq> [] \<and> ps' \<noteq> [] then hd ds' else [],
         Join_strings ds' ''/'', Join_strings ps' ''/'')"
    unfolding first relLoop_Join_strings [OF assms] c by simp
  have b: "(if ds' \<noteq> [] \<and> ps' \<noteq> [] then hd ds' else []) \<noteq> ''..''"
    using nds' by (cases ds') (auto simp: normalElem_def)
  have res: "(if Join_strings ds' ''/'' \<noteq> [] then
               Inr (''..'' @ concat (replicate (count_list (Join_strings ds' ''/'') Separator) ''/..'')
                    @ (if Join_strings ps' ''/'' \<noteq> [] then Separator # Join_strings ps' ''/'' else []))
             else Inr (Join_strings ps' ''/''))
      = (Inr (Join_strings (replicate (length ds') ''..'' @ ps') ''/'') :: error + string)"
  proof (cases "ds' = []")
    case True
    then show ?thesis by (simp add: Join_strings_Nil_iff [OF nds'])
  next
    case nd: False
    then obtain n where n: "length ds' = Suc n" by (cases ds') auto
    have "''..'' @ concat (replicate (count_list (Join_strings ds' ''/'') Separator) ''/..'')
        = Join_strings (replicate (length ds') ''..'') ''/''"
      using count_separators [OF nds' nd] dotdots [of n] n by simp
    moreover have "Join_strings (replicate (length ds') ''..'' @ ps') ''/''
        = Join_strings (replicate (length ds') ''..'') ''/''
          @ (if ps' = [] then [] else ''/'' @ Join_strings ps' ''/'')"
      using n by (cases "ps' = []") (simp_all add: Join_strings_append del: replicate_Suc)
    ultimately show ?thesis
      using nd by (simp add: Join_strings_Nil_iff [OF nds'] Join_strings_Nil_iff [OF nps'])
  qed
  have cl: "Clean (absPath ds) = absPath ds" "Clean (absPath ps) = absPath ps"
    by (simp_all add: Clean_absPath_normal assms)
  have dot: "absPath ds \<noteq> ''.''" by (simp add: absPath_def)
  have sl: "absPath ds \<noteq> [] \<and> hd (absPath ds) = Separator"
    "absPath ps \<noteq> [] \<and> hd (absPath ps) = Separator"
    by (simp_all add: absPath_def)
  have "Rel (absPath ds) (absPath ps) =
     (case relLoop (absPath ds) (absPath ps) of (b, baseRest, targRest) \<Rightarrow>
        if b = ''..'' then
          Inl (Error (''Rel: can't make '' @ absPath ps @ '' relative to '' @ absPath ds))
        else if baseRest \<noteq> [] then
          Inr (''..'' @ concat (replicate (count_list baseRest Separator) ''/..'')
               @ (if targRest \<noteq> [] then Separator # targRest else []))
        else Inr targRest)"
    unfolding Rel_def Let_def cl by (simp only: neq dot sl if_False if_True simp_thms)
  also have "\<dots> = Inr (Join_strings (replicate (length ds') ''..'' @ ps') ''/'')"
    unfolding loop prod.case using b res by (simp only: if_False)
  finally show ?thesis
    using False c by simp
qed

lemma absPath_append:
  assumes "rs \<noteq> []"
  shows "absPath ds @ ''/'' @ Join_strings rs ''/''
     = absPath ((if ds = [] then [[]] else ds) @ rs)"
proof (cases "ds = []")
  case True
  with assms show ?thesis
    by (cases rs) (simp_all add: absPath_def Join_strings_Cons)
next
  case False
  with assms show ?thesis
    by (simp add: absPath_def Join_strings_append)
qed

lemma not_IsAbs_Join_strings:
  assumes "rs \<noteq> []" and "hd rs \<noteq> []" and "Separator \<notin> set (hd rs)"
  shows "\<not> IsAbs (Join_strings rs ''/'')"
proof -
  from assms obtain e es where rs: "rs = e # es" and e: "e \<noteq> []" "Separator \<notin> set e"
    by (cases rs) auto
  then obtain c cs where "e = c # cs" "c \<noteq> Separator" by (cases e) auto
  with rs show ?thesis
    by (cases es) (simp_all add: IsAbs_def HasPrefix_def)
qed

lemma resolve_relative:
  assumes "list_all normalElem ds" and "list_all plainElem rs" and "rs \<noteq> []"
    and "hd rs \<noteq> []"
  shows "resolve (absPath ds) (Join_strings rs ''/'')
     = absPath (cleanElems True [] (ds @ rs))"
proof -
  from assms(2,3) have "Separator \<notin> set (hd rs)"
    by (cases rs) (simp_all add: plainElem_def)
  from not_IsAbs_Join_strings [OF assms(3,4) this]
  have "resolve (absPath ds) (Join_strings rs ''/'')
      = Clean (absPath ds @ ''/'' @ Join_strings rs ''/'')"
    by (simp add: resolve_def absPath_def)
  also have "\<dots> = Clean (absPath ((if ds = [] then [[]] else ds) @ rs))"
    by (simp only: absPath_append [OF assms(3)])
  also have "\<dots> = absPath (cleanElems True [] ((if ds = [] then [[]] else ds) @ rs))"
    using assms(1,2) by (intro Clean_absPath) (auto simp: normal_plain plainElem_def)
  also have "cleanElems True [] ((if ds = [] then [[]] else ds) @ rs) = cleanElems True [] (ds @ rs)"
    by simp
  finally show ?thesis .
qed

lemma resolve_absPath:
  assumes "list_all normalElem ds" and "list_all normalElem ps"
    and "Rel (absPath ds) (absPath ps) = Inr r"
  shows "resolve (absPath ds) r = absPath ps"
proof (cases "ds = ps")
  case True
  with assms(3) Rel_absPath [OF assms(1,2)] have r: "r = Join_strings [''.''] ''/''"
    by simp
  have "resolve (absPath ds) (Join_strings [''.''] ''/'') = absPath (cleanElems True [] (ds @ [''.'']))"
    using assms(1) by (intro resolve_relative) (simp_all add: plainElem_def)
  also have "cleanElems True [] (ds @ [''.'']) = ds"
    using cleanElems_normal [OF assms(1), of True "[]" "[''.'']"] by simp
  finally show ?thesis using True r by simp
next
  case False
  obtain ds' ps' where c: "common ds ps = (ds', ps')" by (cases "common ds ps")
  from common_split [OF c] obtain pre where ds: "ds = pre @ ds'" and ps: "ps = pre @ ps'"
    by blast
  from assms ds ps have npre: "list_all normalElem pre" and nds': "list_all normalElem ds'"
    and nps': "list_all normalElem ps'"
    by simp_all
  let ?rs = "replicate (length ds') ''..'' @ ps'"
  from False assms(3) Rel_absPath [OF assms(1,2)] c have r: "r = Join_strings ?rs ''/''"
    by simp
  from False ds ps have ne: "?rs \<noteq> []" by auto
  have hd: "hd ?rs \<noteq> []"
    using ne nps' by (cases ds'; cases ps') (simp_all add: normalElem_def)
  have plain: "list_all plainElem ?rs"
    using normal_plain [OF nps'] by (auto simp: list_all_iff plainElem_def)
  have "cleanElems True [] (ds @ ?rs) = cleanElems True (rev ds' @ rev pre) ?rs"
    using cleanElems_normal [OF assms(1), of True "[]" ?rs] by (simp add: ds)
  also have "\<dots> = cleanElems True (rev pre) ps'"
    using cleanElems_dotdots [OF nds', of True "rev pre" ps'] by simp
  also have "\<dots> = ps"
    using cleanElems_normal [OF nps', of True "rev pre" "[]"] by (simp add: ps)
  finally have "cleanElems True [] (ds @ ?rs) = ps" .
  with resolve_relative [OF assms(1) plain ne hd] r show ?thesis by simp
qed

lemma clean_absolute_paths_resolve:
  assumes "list_all normalElem ds" and "list_all normalElem ps"
  shows "\<exists>r. relPath env (absPath ds) (absPath ps) = Inr r
           \<and> resolve (absPath ds) r = absPath ps"
proof -
  from Rel_absPath [OF assms] obtain r where r: "Rel (absPath ds) (absPath ps) = Inr r"
    by blast
  then have "relPath env (absPath ds) (absPath ps) = Inr r" by (simp add: relPath_def)
  with resolve_absPath [OF assms r] show ?thesis by blast
qed

subsection \<open>The hash of a file\<close>

lemma isLowerHex_isHex: "isLowerHex c \<Longrightarrow> isHex c"
  by (auto simp: isLowerHex_def isHex_def)

lemma hexDigit_lower: "isLowerHex (hexDigit n)"
proof -
  have all: "list_all isLowerHex ''0123456789abcdef''"
    by code_simp
  have "n mod 16 < length ''0123456789abcdef''" by simp
  then have "''0123456789abcdef'' ! (n mod 16) \<in> set ''0123456789abcdef''"
    by (rule nth_mem)
  with all show ?thesis
    unfolding hexDigit_def list_all_iff by blast
qed

lemma Sprintf_x_digits:
  "length (Sprintf_x bs) = 2 * length bs" "list_all isLowerHex (Sprintf_x bs)"
  by (induction bs) (simp_all add: Sprintf_x_def hexDigit_lower)

lemma generateMd5_hash:
  assumes "generateMd5 env p = Inr hash"
  shows "length hash = 32" and "list_all isLowerHex hash" and "isHash hash"
proof -
  from assms obtain d where h: "hash = Sprintf_x (digestBytes d)"
    by (auto simp: generateMd5_def split: sum.splits if_splits)
  have "length (digestBytes d) = 16" by (simp add: digestBytes_def)
  with h show len: "length hash = 32" by (simp add: Sprintf_x_digits(1))
  from h show low: "list_all isLowerHex hash" by (simp add: Sprintf_x_digits(2))
  from low have "list_all isHex hash"
    by (simp add: list_all_iff isLowerHex_isHex)
  with len show "isHash hash" by (simp add: isHash_def)
qed

subsection \<open>Paths get no new characters but dots and separators\<close>

lemma Split_chars: "x \<in> set piece \<Longrightarrow> piece \<in> set (Split s sep) \<Longrightarrow> x \<in> set s"
proof (induction s sep arbitrary: piece rule: Split.induct)
  case (1 s sep)
  show ?case
  proof (cases "sep = []")
    case True
    with 1(2,3) show ?thesis by (auto simp: Split.simps)
  next
    case False
    show ?thesis
    proof (cases "Index s sep")
      case None
      with False 1(2,3) show ?thesis by (simp add: Split.simps)
    next
      case (Some m)
      with False 1(3) have "piece = take m s \<or> piece \<in> set (Split (drop (m + length sep) s) sep)"
        by (subst (asm) Split.simps) simp
      then show ?thesis
      proof
        assume "piece = take m s"
        with 1(2) show ?thesis by (auto dest: in_set_takeD)
      next
        assume "piece \<in> set (Split (drop (m + length sep) s) sep)"
        from 1(1) [OF False Some 1(2) this] show ?thesis by (rule in_set_dropD)
      qed
    qed
  qed
qed

lemma Join_strings_chars:
  "x \<in> set (Join_strings xs sep) \<Longrightarrow> x \<in> set sep \<or> (\<exists>e \<in> set xs. x \<in> set e)"
  by (induction xs sep rule: Join_strings.induct) auto

lemma cleanElems_elems:
  "e \<in> set (cleanElems rooted out es) \<Longrightarrow> e = ''..'' \<or> e \<in> set out \<or> e \<in> set es"
proof (induction es arbitrary: out)
  case Nil
  then show ?case by simp
next
  case (Cons a es)
  show ?case
  proof (cases "a = [] \<or> a = ''.''")
    case True
    with Cons.prems Cons.IH [of out] show ?thesis by auto
  next
    case False
    show ?thesis
    proof (cases "a = ''..''")
      case True
      show ?thesis
      proof (cases out)
        case Nil
        with True Cons.prems Cons.IH [of "[]"] Cons.IH [of "[''..'']"] show ?thesis
          by (cases rooted) auto
      next
        case (Cons q qs)
        with True Cons.prems Cons.IH [of "''..'' # out"] Cons.IH [of qs] show ?thesis
          by (cases "q = ''..''") auto
      qed
    next
      case nd: False
      with False Cons.prems Cons.IH [of "a # out"] show ?thesis by auto
    qed
  qed
qed

lemma Clean_chars:
  assumes "x \<in> set (Clean p)" and "x \<noteq> CHR ''.''" and "x \<noteq> Separator"
  shows "x \<in> set p"
proof (cases "p = []")
  case True
  with assms show ?thesis by (simp add: Clean_def)
next
  case False
  let ?out = "Join_strings (cleanElems (hd p = Separator) [] (Split p ''/'')) ''/''"
  from assms False have "x \<in> set ?out"
    by (auto simp: Clean_def Let_def split: if_splits)
  with Join_strings_chars [of x _ "''/''"] assms(3) obtain e where
    e: "e \<in> set (cleanElems (hd p = Separator) [] (Split p ''/''))" and x: "x \<in> set e"
    by auto
  from cleanElems_elems [OF e] x assms(2) have "e \<in> set (Split p ''/'')" by auto
  from Split_chars [OF x this] show ?thesis .
qed

lemma Join_chars:
  assumes "x \<in> set (Join [a, b])" and "x \<noteq> CHR ''.''" and "x \<noteq> Separator"
  shows "x \<in> set a \<or> x \<in> set b"
proof -
  from assms(1) have "x \<in> set (Clean (a @ ''/'' @ b)) \<or> x \<in> set (Clean b)"
    by (auto split: if_splits)
  then show ?thesis
    using Clean_chars [OF _ assms(2,3)] assms(3) by fastforce
qed

lemma relLoop_rest:
  "relLoop base targ = (b, baseRest, targRest) \<Longrightarrow> x \<in> set targRest \<Longrightarrow> x \<in> set targ"
proof (induction base targ rule: relLoop.induct)
  case (1 base targ)
  show ?case
  proof (cases "base \<noteq> [] \<and> targ \<noteq> []")
    case False
    with 1(2,3) show ?thesis by (subst (asm) relLoop.simps) auto
  next
    case True
    let ?b = "takeWhile (\<lambda>c. c \<noteq> Separator) base"
    let ?t = "takeWhile (\<lambda>c. c \<noteq> Separator) targ"
    show ?thesis
    proof (cases "?t \<noteq> ?b")
      case True
      with \<open>base \<noteq> [] \<and> targ \<noteq> []\<close> 1(2,3) show ?thesis
        by (subst (asm) relLoop.simps) (auto simp: Let_def)
    next
      case False
      with \<open>base \<noteq> [] \<and> targ \<noteq> []\<close> 1(2)
      have "relLoop (drop (Suc (length ?b)) base) (drop (Suc (length ?t)) targ)
              = (b, baseRest, targRest)"
        by (subst (asm) relLoop.simps) (simp add: Let_def)
      from 1(1) [OF \<open>base \<noteq> [] \<and> targ \<noteq> []\<close> refl refl _ this 1(3)] False
      show ?thesis by (auto dest: in_set_dropD)
    qed
  qed
qed

lemma Rel_chars:
  assumes "Rel base targ = Inr r" and "x \<in> set r" and "x \<noteq> CHR ''.''" and "x \<noteq> Separator"
  shows "x \<in> set targ"
proof -
  let ?base = "if Clean base = ''.'' then [] else Clean base"
  obtain b baseRest targRest where loop: "relLoop ?base (Clean targ) = (b, baseRest, targRest)"
    by (cases "relLoop ?base (Clean targ)") auto
  from assms(1) have "r = ''.'' \<or> r = targRest
      \<or> r = ''..'' @ concat (replicate (count_list baseRest Separator) ''/..'')
             @ (if targRest \<noteq> [] then Separator # targRest else [])"
    by (auto simp: Rel_def Let_def loop split: if_splits)
  with assms(2-4) have "x \<in> set targRest"
    by (auto split: if_splits)
  from relLoop_rest [OF loop this] have "x \<in> set (Clean targ)" .
  from Clean_chars [OF this assms(3,4)] show ?thesis .
qed

lemma Abs_chars:
  assumes "Abs env p = Inr r" and "x \<in> set r" and "x \<noteq> CHR ''.''" and "x \<noteq> Separator"
  shows "x \<in> set p \<or> (\<exists>wd. os_Getwd env = Inr wd \<and> x \<in> set wd)"
proof (cases "IsAbs p")
  case True
  with assms(1) have "r = Clean p" by (simp add: Abs_def)
  with Clean_chars [OF _ assms(3,4)] assms(2) show ?thesis by blast
next
  case False
  with assms(1) obtain wd where wd: "os_Getwd env = Inr wd" and r: "r = Join [wd, p]"
    by (auto simp: Abs_def split: sum.splits)
  from Join_chars [OF _ assms(3,4)] assms(2) r have "x \<in> set wd \<or> x \<in> set p" by blast
  with wd show ?thesis by blast
qed

lemma relPath_chars:
  assumes "relPath env dir p = Inr r" and "x \<in> set r" and "x \<noteq> CHR ''.''" and "x \<noteq> Separator"
  shows "x \<in> set p \<or> (\<exists>wd. os_Getwd env = Inr wd \<and> x \<in> set wd)"
proof (cases "Rel dir p")
  case (Inr r')
  with assms(1) have "Rel dir p = Inr r" by (simp add: relPath_def)
  from Rel_chars [OF this assms(2-4)] show ?thesis by blast
next
  case (Inl err)
  with assms(1) have "Abs env p = Inr r" by (simp add: relPath_def)
  from Abs_chars [OF this assms(2-4)] show ?thesis .
qed

lemma Dir_chars:
  assumes "x \<in> set (Dir p)" and "x \<noteq> CHR ''.''" and "x \<noteq> Separator"
  shows "x \<in> set p"
  using Clean_chars [OF assms(1) [unfolded Dir_def] assms(2,3)] by (rule in_set_takeD)

lemma resolve_chars:
  assumes "x \<in> set (resolve dir r)" and "x \<noteq> CHR ''.''" and "x \<noteq> Separator"
  shows "x \<in> set dir \<or> x \<in> set r"
proof (cases "IsAbs r")
  case True
  with assms(1) show ?thesis by (simp add: resolve_def)
next
  case False
  with assms(1) have "x \<in> set (Join [dir, r])" by (simp add: resolve_def)
  from Join_chars [OF this assms(2,3)] show ?thesis .
qed

lemma firstPiece_chars: "x \<in> set (firstPiece r) \<Longrightarrow> x \<in> set r"
  by (auto simp: firstPiece_def split: option.splits dest: in_set_takeD)

subsection \<open>What the commands hand to writeFile\<close>

lemma parseSpec_wellFormed:
  assumes "c \<in> set (parseSpec dir data)" and "LF \<notin> set dir"
  shows "wellFormed c"
proof -
  from assms(1) obtain line where m: "MatchString line"
    and c: "c = \<lparr>Hash = take 32 line, Path = resolve dir (firstPiece (drop 34 line))\<rparr>"
    by (auto simp: parseSpec_def)
  from MatchString_split [OF m] have "isHash (take 32 line)" and lf: "LF \<notin> set (drop 34 line)"
    by (simp_all add: isHash_def)
  moreover have "LF \<notin> set (resolve dir (firstPiece (drop 34 line)))"
  proof
    assume "LF \<in> set (resolve dir (firstPiece (drop 34 line)))"
    from resolve_chars [OF this] assms(2) have "LF \<in> set (firstPiece (drop 34 line))"
      by simp
    from firstPiece_chars [OF this] lf show False by simp
  qed
  ultimately show ?thesis by (simp add: c wellFormed_def)
qed

lemma update_elems:
  "(k, c) \<in> set (AList.update k' c' m) \<Longrightarrow> (k, c) = (k', c') \<or> (k, c) \<in> set m"
  by (induction m) (auto split: if_splits)

lemma fold_update_elems:
  "(k, c) \<in> set (fold (\<lambda>c m. AList.update (Path c) c m) sums m) \<Longrightarrow>
   c \<in> set sums \<or> (k, c) \<in> set m"
proof (induction sums arbitrary: m)
  case Nil
  then show ?case by simp
next
  case (Cons x sums)
  from Cons.IH [of "AList.update (Path x) x m"] Cons.prems
  have "c \<in> set sums \<or> (k, c) \<in> set (AList.update (Path x) x m)" by simp
  then show ?case by (auto dest: update_elems)
qed

lemma readFileToMap_wellFormed:
  assumes "readFileToMap env path = Inr m" and "LF \<notin> set path" and "(k, c) \<in> set m"
  shows "wellFormed c"
proof -
  from assms(1) obtain data where
    m: "m = fold (\<lambda>c m. AList.update (Path c) c m) (parseSpec (Dir path) data) []"
    by (auto simp: readFileToMap_eq split: sum.splits)
  from assms(2) have "LF \<notin> set (Dir path)"
    using Dir_chars [of LF path] by auto
  moreover from fold_update_elems [OF assms(3) [unfolded m]]
  have "c \<in> set (parseSpec (Dir path) data)" by simp
  ultimately show ?thesis by (rule parseSpec_wellFormed [rotated])
qed

lemma Walk_new_wellFormed:
  assumes "Walk vs (newWalkFn env output base) sums0 = (r, sums)"
    and "list_all (\<lambda>v. case v of Visit p isDir \<Rightarrow> LF \<notin> set p | VisitErr p err \<Rightarrow> True) vs"
    and "list_all wellFormed sums0"
  shows "list_all wellFormed sums"
  using assms
proof (induction vs arbitrary: sums0)
  case Nil
  then show ?case by simp
next
  case (Cons v vs)
  obtain e sums1 where step: "newWalkFn env output base v sums0 = (e, sums1)"
    by (cases "newWalkFn env output base v sums0")
  have wf1: "list_all wellFormed sums1"
  proof (cases v)
    case (VisitErr p err)
    with step Cons.prems(3) show ?thesis by (simp add: newWalkFn_def)
  next
    case (Visit p isDir)
    with Cons.prems(2) have lf: "LF \<notin> set p" by simp
    show ?thesis
    proof (cases "sums1 = sums0")
      case True
      with Cons.prems(3) show ?thesis by simp
    next
      case False
      with step Visit obtain hash where "generateMd5 env p = Inr hash"
        and "sums1 = sums0 @ [\<lparr>Hash = hash, Path = p\<rparr>]"
        by (auto simp: newWalkFn_def split: if_splits sum.splits bool.splits)
      moreover from this generateMd5_hash(3) [of env p hash] lf
      have "wellFormed \<lparr>Hash = hash, Path = p\<rparr>"
        by (simp add: wellFormed_def)
      ultimately show ?thesis using Cons.prems(3) by simp
    qed
  qed
  show ?case
  proof (cases e)
    case (Some err)
    with Cons.prems(1) step wf1 show ?thesis by simp
  next
    case None
    with Cons.prems(1) step have "Walk vs (newWalkFn env output base) sums1 = (r, sums)"
      by simp
    from Cons.IH [OF this _ wf1] Cons.prems(2) show ?thesis by simp
  qed
qed

lemma Walk_update_keys:
  assumes "Walk vs (updateWalkFn env target base) sm0 = (r, sm)"
    and "list_all (\<lambda>v. case v of Visit p isDir \<Rightarrow> LF \<notin> set p | VisitErr p err \<Rightarrow> True) vs"
    and "list_all (\<lambda>k. LF \<notin> set k) (map fst sm0)"
  shows "list_all (\<lambda>k. LF \<notin> set k) (map fst sm)"
  using assms
proof (induction vs arbitrary: sm0)
  case Nil
  then show ?case by simp
next
  case (Cons v vs)
  obtain e sm1 where step: "updateWalkFn env target base v sm0 = (e, sm1)"
    by (cases "updateWalkFn env target base v sm0")
  have k1: "list_all (\<lambda>k. LF \<notin> set k) (map fst sm1)"
  proof (cases v)
    case (VisitErr p err)
    with step Cons.prems(3) show ?thesis by (simp add: updateWalkFn_def)
  next
    case (Visit p isDir)
    with Cons.prems(2) have lf: "LF \<notin> set p" by simp
    from step Visit have "sm1 = sm0 \<or> sm1 = AList.update p True sm0"
      by (auto simp: updateWalkFn_def split: if_splits sum.splits bool.splits)
    with lf Cons.prems(3) show ?thesis
      by (auto simp: list_all_iff dest!: update_elems)
  qed
  show ?case
  proof (cases e)
    case (Some err)
    with Cons.prems(1) step k1 show ?thesis by simp
  next
    case None
    with Cons.prems(1) step have "Walk vs (updateWalkFn env target base) sm1 = (r, sm)"
      by simp
    from Cons.IH [OF this _ k1] Cons.prems(2) show ?thesis by simp
  qed
qed

lemma newCommand_written:
  assumes "ctx_Args ctx = source # output # rest"
    and "lineFeedFree env source output"
    and "Written (newCommand env ctx) = Some (file, bytes)"
  shows "\<exists>sums. list_all wellFormed sums \<and> writeFile env sums output = Inr bytes \<and> file = output"
proof -
  obtain r sums where w: "Walk (filepath_Walk env source) (newWalkFn env output (Base output)) []
      = (r, sums)"
    by (cases "Walk (filepath_Walk env source) (newWalkFn env output (Base output)) []")
  from assms(2) have "list_all wellFormed sums"
    by (intro Walk_new_wellFormed [OF w]) (simp_all add: lineFeedFree_def)
  moreover from assms(1,3) w have "writeFile env sums output = Inr bytes \<and> file = output"
    by (auto simp: newCommand_def Let_def split: option.splits sum.splits)
  ultimately show ?thesis by blast
qed

lemma updateCommand_written:
  assumes "range_ok env"
    and "ctx_Args ctx = source # target # rest"
    and "lineFeedFree env source target"
    and "Written (updateCommand env ctx) = Some (file, bytes)"
  shows "\<exists>sums. list_all wellFormed sums \<and> writeFile env sums target = Inr bytes \<and> file = target"
proof -
  let ?del = "ctx_Bool ctx ''delete''"
  obtain r sm where w: "Walk (filepath_Walk env source) (updateWalkFn env target (Base target)) []
      = (r, sm)"
    by (cases "Walk (filepath_Walk env source) (updateWalkFn env target (Base target)) []")
  from assms(2,4) w have r: "r = None"
    by (cases r) (auto simp: updateCommand_def Let_def)
  from assms(2,4) w r obtain targetMap where t: "readFileToMap env target = Inr targetMap"
    by (cases "readFileToMap env target") (auto simp: updateCommand_def Let_def)
  note unf = updateCommand_unfold [OF assms(2) w [unfolded r] t]
  from unf assms(4) obtain tm hashed where
    rec: "reconcile env ?del sm targetMap = Inr (tm, hashed)"
    and fin: "Written (updateFinish env target (map snd (rangeMap env tm))) = Some (file, bytes)"
    by (auto split: sum.splits)
  from fin have wf: "writeFile env (map snd (rangeMap env tm)) target = Inr bytes"
    and file_eq: "file = target"
    by (auto simp: updateFinish_def split: sum.splits)
  have dsm: "distinct (map fst sm)"
    using Walk_update_distinct [OF w [unfolded r]] by simp
  have ktm: "keyedByPath targetMap" by (rule readFileToMap_keyed [OF t])
  from reconcile_spec [OF assms(1) dsm ktm, of ?del] rec have
    k: "keyedByPath tm"
    and m: "map_of tm = updateSpec env ?del (set (map fst sm)) (map_of targetMap)"
    by (auto split: if_splits)
  from assms(3) have keys: "list_all (\<lambda>k. LF \<notin> set k) (map fst sm)"
    by (intro Walk_update_keys [OF w]) (simp_all add: lineFeedFree_def)
  from assms(3) have lft: "LF \<notin> set target" by (simp add: lineFeedFree_def)
  have "wellFormed c" if "(p, c) \<in> set tm" for p c
  proof -
    from k that have "map_of tm p = Some c" by (simp add: keyedByPath_def)
    with m have u: "updateSpec env ?del (set (map fst sm)) (map_of targetMap) p = Some c"
      by simp
    show ?thesis
    proof (cases "p \<in> set (map fst sm)
        \<and> keptSpec ?del (set (map fst sm)) (map_of targetMap) p = None")
      case True
      with u obtain hash where "generateMd5 env p = Inr hash" "c = \<lparr>Hash = hash, Path = p\<rparr>"
        by (auto simp: updateSpec_def split: sum.splits)
      with generateMd5_hash(3) [of env p hash] True keys show ?thesis
        by (auto simp: wellFormed_def list_all_iff)
    next
      case False
      with u have "keptSpec ?del (set (map fst sm)) (map_of targetMap) p = Some c"
        by (auto simp: updateSpec_def)
      then have "map_of targetMap p = Some c"
        by (auto simp: keptSpec_def restrict_map_def split: if_splits)
      then have "(p, c) \<in> set targetMap" by (rule map_of_SomeD)
      from readFileToMap_wellFormed [OF t lft this] show ?thesis .
    qed
  qed
  then have "list_all wellFormed (map snd (rangeMap env tm))"
    using slice_of_map(3) [OF assms(1) k] by (auto simp: list_all_iff)
  with wf file_eq show ?thesis by blast
qed

lemma LF_not_dot: "LF \<noteq> CHR ''.''" "LF \<noteq> Separator"
  by simp_all

lemma writtenPath_no_LF:
  assumes "relPath env dir (Path c) = Inr (writtenPath env dir c)"
    and "LF \<notin> set (Path c)"
    and "case os_Getwd env of Inl err \<Rightarrow> True | Inr wd \<Rightarrow> LF \<notin> set wd"
  shows "LF \<notin> set (writtenPath env dir c)"
proof
  assume "LF \<in> set (writtenPath env dir c)"
  from relPath_chars [OF assms(1) this LF_not_dot] assms(2,3) show False
    by auto
qed

lemma writeFile_reparses:
  assumes "sort_ok env"
    and "writeFile env entries output = Inr bytes"
    and "list_all wellFormed entries"
    and "case os_Getwd env of Inl err \<Rightarrow> True | Inr wd \<Rightarrow> LF \<notin> set wd"
  shows "\<exists>sums parsed.
           bytes = concat (map (\<lambda>c. entryLine c (writtenPath env (Dir output) c) @ [LF]) sums)
           \<and> list_all (\<lambda>c. MatchString (entryLine c (writtenPath env (Dir output) c))) sums
           \<and> readFile (afterWrite env output bytes) output = Inr parsed
           \<and> map Hash parsed = map Hash sums"
proof -
  let ?xs = "sort_Sort env (Less env) entries"
  let ?wp = "writtenPath env (Dir output)"
  from assms(1) have perm: "mset ?xs = mset entries" by (simp add: sort_ok_def)
  from assms(3) list_all_mset [OF perm] have wf: "list_all wellFormed ?xs" by simp
  from writeFile_eq [OF assms(2)] have bytes: "bytes = serialize env (Dir output) ?xs"
    and rel: "list_all (\<lambda>c. relPath env (Dir output) (Path c) = Inr (?wp c)) ?xs"
    by simp_all
  have "isHash (Hash c) \<and> LF \<notin> set (?wp c)" if "c \<in> set ?xs" for c
  proof -
    from wf that have h: "isHash (Hash c)" and l: "LF \<notin> set (Path c)"
      by (simp_all add: list_all_iff wellFormed_def)
    from rel that have "relPath env (Dir output) (Path c) = Inr (?wp c)"
      by (simp add: list_all_iff)
    from h writtenPath_no_LF [OF this l assms(4)] show ?thesis by simp
  qed
  then have ok: "list_all (\<lambda>c. isHash (Hash c) \<and> LF \<notin> set (?wp c)) ?xs"
    by (simp add: list_all_iff)
  have "MatchString (entryLine c (?wp c))" if "c \<in> set ?xs" for c
    using ok that unfolding entryLine_def
    by (intro MatchString_intro) (auto simp: list_all_iff isHash_def)
  then have match: "list_all (\<lambda>c. MatchString (entryLine c (?wp c))) ?xs"
    by (simp add: list_all_iff)
  let ?parsed = "map (\<lambda>c. \<lparr>Hash = Hash c,
      Path = resolve (Dir output) (firstPiece (stripCR (?wp c)))\<rparr>) ?xs"
  from parse_written [OF ok, of "Dir output"] have "parseSpec (Dir output) bytes = ?parsed"
    by (simp add: bytes serialize_def)
  then have "readFile (afterWrite env output bytes) output = Inr ?parsed"
    by (simp add: readFile_eq afterWrite_def)
  moreover have "map Hash ?parsed = map Hash ?xs" by (simp add: comp_def)
  moreover have "bytes = concat (map (\<lambda>c. entryLine c (?wp c) @ [LF]) ?xs)"
    by (simp add: bytes serialize_def)
  ultimately show ?thesis using match by blast
qed

text \<open>
  C10, as the code has it. A hash that \<^verbatim>\<open>generateMd5\<close> returns has 32 lowercase
  hexadecimal digits. When a run of the new or of the update command is free of line feeds
  and writes its manifest, the text written is one line for each entry of a list, every
  such line matches the pattern of the parser, and reading the file back gives one entry
  for each line, in the same order and with the same hash.
\<close>

theorem written_manifest_reparses:
  assumes "sort_ok env" and "range_ok env"
    and "ctx_Args ctx = source # output # rest"
    and "lineFeedFree env source output"
    and "Written (newCommand env ctx) = Some (file, bytes)
         \<or> Written (updateCommand env ctx) = Some (file, bytes)"
  shows "(case generateMd5 env p of
            Inl err \<Rightarrow> True
          | Inr hash \<Rightarrow> length hash = 32 \<and> list_all isLowerHex hash)
    \<and> file = output
    \<and> (\<exists>sums parsed.
          bytes = concat (map (\<lambda>c. entryLine c (writtenPath env (Dir output) c) @ [LF]) sums)
          \<and> list_all (\<lambda>c. MatchString (entryLine c (writtenPath env (Dir output) c))) sums
          \<and> readFile (afterWrite env output bytes) output = Inr parsed
          \<and> map Hash parsed = map Hash sums)"
proof -
  have hash: "case generateMd5 env p of
            Inl err \<Rightarrow> True
          | Inr hash \<Rightarrow> length hash = 32 \<and> list_all isLowerHex hash"
    using generateMd5_hash(1,2) [of env p] by (simp split: sum.splits)
  from assms(5) obtain entries where wf: "list_all wellFormed entries"
    and w: "writeFile env entries output = Inr bytes" and f: "file = output"
    using newCommand_written [OF assms(3,4)] updateCommand_written [OF assms(2-4)]
    by blast
  from assms(4) have wd: "case os_Getwd env of Inl err \<Rightarrow> True | Inr wd \<Rightarrow> LF \<notin> set wd"
    by (simp add: lineFeedFree_def)
  from hash f writeFile_reparses [OF assms(1) w wf wd] show ?thesis
    by (intro conjI)
qed

theorem written_manifest_reparses_witness:
  "readFile
     (afterWrite updateWorld ''/d/m.md5''
        (''9dd4e461268c8034f5c8564e155c67a6 *a.txt'' @ [LF]
         @ ''fbade9e36a3f36d3d676c1b808451dd7 *new.txt'' @ [LF]
         @ ''d41d8cd98f00b204e9800998ecf8427e *old.txt'' @ [LF]))
     ''/d/m.md5''
     = Inr [\<lparr>Hash = ''9dd4e461268c8034f5c8564e155c67a6'', Path = ''/d/a.txt''\<rparr>,
            \<lparr>Hash = ''fbade9e36a3f36d3d676c1b808451dd7'', Path = ''/d/new.txt''\<rparr>,
            \<lparr>Hash = ''d41d8cd98f00b204e9800998ecf8427e'', Path = ''/d/old.txt''\<rparr>]
   \<and> (case generateMd5 updateWorld ''/d/new.txt'' of
         Inl err \<Rightarrow> True
       | Inr hash \<Rightarrow> length hash = 32 \<and> list_all isLowerHex hash)
   \<and> ''/d/m.md5'' = ''/d/m.md5''
   \<and> (\<exists>sums parsed.
         ''9dd4e461268c8034f5c8564e155c67a6 *a.txt'' @ [LF]
         @ ''fbade9e36a3f36d3d676c1b808451dd7 *new.txt'' @ [LF]
         @ ''d41d8cd98f00b204e9800998ecf8427e *old.txt'' @ [LF]
           = concat (map (\<lambda>c. entryLine c (writtenPath updateWorld (Dir ''/d/m.md5'') c) @ [LF]) sums)
         \<and> list_all (\<lambda>c. MatchString (entryLine c (writtenPath updateWorld (Dir ''/d/m.md5'') c))) sums
         \<and> readFile
             (afterWrite updateWorld ''/d/m.md5''
                (''9dd4e461268c8034f5c8564e155c67a6 *a.txt'' @ [LF]
                 @ ''fbade9e36a3f36d3d676c1b808451dd7 *new.txt'' @ [LF]
                 @ ''d41d8cd98f00b204e9800998ecf8427e *old.txt'' @ [LF]))
             ''/d/m.md5'' = Inr parsed
         \<and> map Hash parsed = map Hash sums)"
proof -
  have free: "lineFeedFree updateWorld ''/d'' ''/d/m.md5''"
    by code_simp
  have written: "Written (updateCommand updateWorld (updateArgs False))
     = Some (''/d/m.md5'',
         ''9dd4e461268c8034f5c8564e155c67a6 *a.txt'' @ [LF]
         @ ''fbade9e36a3f36d3d676c1b808451dd7 *new.txt'' @ [LF]
         @ ''d41d8cd98f00b204e9800998ecf8427e *old.txt'' @ [LF])"
    by code_simp
  have parsed: "readFile
     (afterWrite updateWorld ''/d/m.md5''
        (''9dd4e461268c8034f5c8564e155c67a6 *a.txt'' @ [LF]
         @ ''fbade9e36a3f36d3d676c1b808451dd7 *new.txt'' @ [LF]
         @ ''d41d8cd98f00b204e9800998ecf8427e *old.txt'' @ [LF]))
     ''/d/m.md5''
     = Inr [\<lparr>Hash = ''9dd4e461268c8034f5c8564e155c67a6'', Path = ''/d/a.txt''\<rparr>,
            \<lparr>Hash = ''fbade9e36a3f36d3d676c1b808451dd7'', Path = ''/d/new.txt''\<rparr>,
            \<lparr>Hash = ''d41d8cd98f00b204e9800998ecf8427e'', Path = ''/d/old.txt''\<rparr>]"
    by code_simp
  note reparses =
    written_manifest_reparses [OF updateWorld_ok(2,1) updateArgs_Args [of False] free
      disjI2 [OF written], of "''/d/new.txt''"]
  from parsed reparses show ?thesis by (rule conjI)
qed

text \<open>
  The claim as stated covers every file name. For the file of the last example world the
  new command writes one entry; what it writes for the entry does not match the pattern,
  and reading the manifest back gives two entries, the second with a hash that was never
  computed.
\<close>

theorem line_feed_in_name_adds_entry:
  "Written (newCommand lineFeedWorld \<lparr>ctx_Args = [''/d'', ''/d/m.md5''], ctx_Bool = (\<lambda>flag. False)\<rparr>)
     = Some (''/d/m.md5'',
         ''9dd4e461268c8034f5c8564e155c67a6 *a'' @ [LF]
         @ ''00000000000000000000000000000000 *b'' @ [LF])
   \<and> \<not> MatchString
         (''9dd4e461268c8034f5c8564e155c67a6 *a'' @ [LF] @ ''00000000000000000000000000000000 *b'')
   \<and> readFile
       (afterWrite lineFeedWorld ''/d/m.md5''
          (''9dd4e461268c8034f5c8564e155c67a6 *a'' @ [LF]
           @ ''00000000000000000000000000000000 *b'' @ [LF]))
       ''/d/m.md5''
     = Inr [\<lparr>Hash = ''9dd4e461268c8034f5c8564e155c67a6'', Path = ''/d/a''\<rparr>,
            \<lparr>Hash = ''00000000000000000000000000000000'', Path = ''/d/b''\<rparr>]"
  by code_simp

end
